theory Spec2Isabelle
  imports Complex_Main "HOL-Library.Sublist" "HOL-Library.AList"
begin

section \<open>The psutil interface as seen by the program\<close>

text \<open>
  ProcPortManager is a console front end to \<^verbatim>\<open>psutil\<close>. Every answer of the
  operating system (does the pid still exist, which children does it have, did the
  signal go through, who is still alive after the wait) is outside the program, so the
  model takes it from an oracle: a record of functions, one per psutil call the source
  makes, each answering from the arguments of the call and the log of all calls made so
  far in this invocation. The same call may therefore answer differently at different
  moments, as a live system does.

  Exceptions are values. \<^verbatim>\<open>psutil.NoSuchProcess\<close> (with its subclass
  ZombieProcess) and \<^verbatim>\<open>psutil.AccessDenied\<close> are told apart because the source
  has handlers for them; every other \<^verbatim>\<open>Exception\<close> is \<open>OtherError\<close>. The string is
  what \<^verbatim>\<open>str(e)\<close> gives.
\<close>

datatype exn = NoSuchProcess string | AccessDenied string | OtherError string

fun str :: "exn \<Rightarrow> string" where
  "str (NoSuchProcess m) = m"
| "str (AccessDenied m) = m"
| "str (OtherError m) = m"

datatype 'a outcome = Raised exn | Returned 'a

text \<open>
  A \<^verbatim>\<open>psutil.Process\<close> object. Its \<^verbatim>\<open>pid\<close> attribute is always present and is the
  pid the object was created for.
\<close>

datatype process = Process (pid: int)

text \<open>One entry of \<^verbatim>\<open>psutil.net_connections(kind='inet')\<close>: the local address
  (an empty tuple when the socket is unbound, here \<open>None\<close>) and the owning pid
  (\<^verbatim>\<open>None\<close> when the system does not tell).\<close>

record conn =
  laddr :: "(string \<times> int) option"
  conn_pid :: "int option"

datatype event =
    Process_init int "unit outcome"
  | Children process "process list outcome"
  | Terminate process "unit outcome"
  | Wait_procs "process list" real "(process list \<times> process list) outcome"
  | Is_running process "bool outcome"
  | Kill process "unit outcome"
  | Net_connections "conn list outcome"

record psutil =
  Process_new :: "int \<Rightarrow> event list \<Rightarrow> unit outcome"
  children :: "process \<Rightarrow> event list \<Rightarrow> process list outcome"
  terminate :: "process \<Rightarrow> event list \<Rightarrow> unit outcome"
  wait_procs :: "process list \<Rightarrow> real \<Rightarrow> event list \<Rightarrow> (process list \<times> process list) outcome"
  is_running :: "process \<Rightarrow> event list \<Rightarrow> bool outcome"
  kill :: "process \<Rightarrow> event list \<Rightarrow> unit outcome"
  net_connections :: "event list \<Rightarrow> conn list outcome"

section \<open>process_manager.py: terminate_process_tree\<close>

text \<open>
  The result dictionary. The entries are Python values: a pid is \<open>Some n\<close>, and
  \<open>None\<close> is Python's \<^verbatim>\<open>None\<close>, the default of \<^verbatim>\<open>getattr(p, 'pid', None)\<close>.
\<close>

record result =
  terminated :: "int option list"
  killed :: "int option list"
  failed :: "(int option \<times> string) list"

definition empty_result :: result where
  "empty_result = \<lparr>terminated = [], killed = [], failed = []\<rparr>"

definition getattr_pid :: "process \<Rightarrow> int option" where
  "getattr_pid p = Some (pid p)"

text \<open>Python truthiness of a pid value: \<^verbatim>\<open>None\<close> and \<^verbatim>\<open>0\<close> are false.\<close>

definition truthy :: "int option \<Rightarrow> bool" where
  "truthy x = (case x of None \<Rightarrow> False | Some n \<Rightarrow> n \<noteq> 0)"

text \<open>\<^verbatim>\<open>list(dict.fromkeys(xs))\<close>: the keys in the order of their first occurrence.\<close>

definition dict_fromkeys :: "'a list \<Rightarrow> 'a list" where
  "dict_fromkeys xs = fold (\<lambda>x ks. if x \<in> set ks then ks else ks @ [x]) xs []"

text \<open>Lines 115-120: a fresh handle for every child; a child whose handle cannot be
  created is skipped.\<close>

fun resolve_children :: "psutil \<Rightarrow> process list \<Rightarrow> event list \<Rightarrow> process list \<times> event list" where
  "resolve_children os [] tr = ([], tr)"
| "resolve_children os (c # cs) tr =
     (let r = Process_new os (pid c) tr;
          (ps, tr') = resolve_children os cs (tr @ [Process_init (pid c) r])
      in (case r of Returned _ \<Rightarrow> Process (pid c) # ps | Raised _ \<Rightarrow> ps, tr'))"

text \<open>Lines 124-128: the graceful request to every process, in list order.\<close>

fun graceful :: "psutil \<Rightarrow> process list \<Rightarrow> result \<times> event list \<Rightarrow> result \<times> event list" where
  "graceful os [] s = s"
| "graceful os (p # ps) (res, tr) =
     (let r = terminate os p tr in
      graceful os ps
        (case r of
           Returned _ \<Rightarrow> res
         | Raised e \<Rightarrow> res\<lparr>failed := failed res @ [(getattr_pid p, ''terminate error: '' @ str e)]\<rparr>,
         tr @ [Terminate p r]))"

text \<open>Line 135: \<^verbatim>\<open>[p for p in all_procs if p.is_running()]\<close>. It stands in an
  \<^verbatim>\<open>except\<close> block, so an exception of \<^verbatim>\<open>is_running\<close> leaves the function.\<close>

fun running_procs :: "psutil \<Rightarrow> process list \<Rightarrow> event list \<Rightarrow> process list outcome \<times> event list" where
  "running_procs os [] tr = (Returned [], tr)"
| "running_procs os (p # ps) tr =
     (let r = is_running os p tr; tr1 = tr @ [Is_running p r] in
      case r of
        Raised e \<Rightarrow> (Raised e, tr1)
      | Returned b \<Rightarrow>
          (case running_procs os ps tr1 of
             (Raised e, tr2) \<Rightarrow> (Raised e, tr2)
           | (Returned qs, tr2) \<Rightarrow> (Returned (if b then p # qs else qs), tr2)))"

text \<open>Lines 131-135: the primary wait.\<close>

definition wait_for_termination ::
  "psutil \<Rightarrow> process list \<Rightarrow> real \<Rightarrow> event list \<Rightarrow> (process list \<times> process list) outcome \<times> event list" where
  "wait_for_termination os all_procs timeout tr =
     (let r = wait_procs os all_procs timeout tr;
          tr1 = tr @ [Wait_procs all_procs timeout r] in
      case r of
        Returned (gone, alive) \<Rightarrow> (Returned (gone, alive), tr1)
      | Raised _ \<Rightarrow>
          (case running_procs os all_procs tr1 of
             (Raised e, tr2) \<Rightarrow> (Raised e, tr2)
           | (Returned alive, tr2) \<Rightarrow> (Returned ([], alive), tr2)))"

text \<open>Lines 137-141.\<close>

definition record_gone :: "process list \<Rightarrow> result \<Rightarrow> result" where
  "record_gone gone res = res\<lparr>terminated := terminated res @ map (\<lambda>p. Some (pid p)) gone\<rparr>"

text \<open>Lines 145-151: the forced kill of every survivor.\<close>

fun force_kill :: "psutil \<Rightarrow> process list \<Rightarrow> result \<times> event list \<Rightarrow> result \<times> event list" where
  "force_kill os [] s = s"
| "force_kill os (p # ps) (res, tr) =
     (let r = kill os p tr in
      force_kill os ps
        (case r of
           Returned _ \<Rightarrow> res
         | Raised e \<Rightarrow>
             (case e of
                NoSuchProcess _ \<Rightarrow> res\<lparr>terminated := terminated res @ [getattr_pid p]\<rparr>
              | _ \<Rightarrow> res\<lparr>failed := failed res @ [(getattr_pid p, ''kill error: '' @ str e)]\<rparr>),
         tr @ [Kill p r]))"

text \<open>Lines 155-157.\<close>

fun record_killed :: "process list \<Rightarrow> result \<Rightarrow> result" where
  "record_killed [] res = res"
| "record_killed (p # ps) res =
     record_killed ps
       (if Some (pid p) \<notin> set (terminated res)
        then res\<lparr>killed := killed res @ [Some (pid p)]\<rparr> else res)"

text \<open>Lines 158-159.\<close>

definition record_still_alive :: "process list \<Rightarrow> result \<Rightarrow> result" where
  "record_still_alive alive2 res =
     res\<lparr>failed := failed res @ map (\<lambda>p. (getattr_pid p, ''still alive after kill'')) alive2\<rparr>"

text \<open>Lines 160-169: the fallback when the secondary wait raises.\<close>

fun check_after_kill :: "psutil \<Rightarrow> process list \<Rightarrow> result \<times> event list \<Rightarrow> result \<times> event list" where
  "check_after_kill os [] s = s"
| "check_after_kill os (p # ps) (res, tr) =
     (let r = is_running os p tr in
      check_after_kill os ps
        (case r of
           Returned b \<Rightarrow>
             (if \<not> b
              then (if Some (pid p) \<notin> set (terminated res)
                    then res\<lparr>killed := killed res @ [Some (pid p)]\<rparr> else res)
              else res\<lparr>failed := failed res @ [(getattr_pid p, ''still alive after kill'')]\<rparr>)
         | Raised _ \<Rightarrow> res\<lparr>failed := failed res @ [(getattr_pid p, ''unknown state'')]\<rparr>,
         tr @ [Is_running p r]))"

text \<open>Lines 143-169: the escalation phase, entered only when somebody survived.\<close>

definition escalate :: "psutil \<Rightarrow> process list \<Rightarrow> result \<times> event list \<Rightarrow> result \<times> event list" where
  "escalate os alive s =
     (if alive = [] then s
      else
        (let (res1, tr1) = force_kill os alive s;
             r = wait_procs os alive 3 tr1;
             tr2 = tr1 @ [Wait_procs alive 3 r] in
         case r of
           Returned (gone2, alive2) \<Rightarrow> (record_still_alive alive2 (record_killed gone2 res1), tr2)
         | Raised _ \<Rightarrow> check_after_kill os alive (res1, tr2)))"

text \<open>Lines 171-174.\<close>

definition clean_lists :: "result \<Rightarrow> result" where
  "clean_lists res =
     (let t = dict_fromkeys (filter truthy (terminated res));
          k = dict_fromkeys (filter (\<lambda>x. truthy x \<and> x \<notin> set t) (killed res));
          f = filter (\<lambda>(p, msg). truthy p) (failed res)
      in \<lparr>terminated = t, killed = k, failed = f\<rparr>)"

text \<open>Lines 109-112: the descendants of the root; none when the enumeration raises.\<close>

definition enumerate_children :: "psutil \<Rightarrow> process \<Rightarrow> event list \<Rightarrow> process list \<times> event list" where
  "enumerate_children os parent tr =
     (let rc = children os parent tr
      in (case rc of Returned cs \<Rightarrow> cs | Raised _ \<Rightarrow> [], tr @ [Children parent rc]))"

text \<open>Lines 114-121: \<^verbatim>\<open>all_procs\<close>, the children first and the root last.\<close>

definition build_all_procs :: "psutil \<Rightarrow> process \<Rightarrow> event list \<Rightarrow> process list \<times> event list" where
  "build_all_procs os parent tr =
     (let (cs, tr1) = enumerate_children os parent tr;
          (ps, tr2) = resolve_children os cs tr1
      in (ps @ [parent], tr2))"

text \<open>Lines 109-176, for a root that resolved at line 102; \<open>tr0\<close> is the log so far.\<close>

definition terminate_resolved ::
  "psutil \<Rightarrow> int \<Rightarrow> real \<Rightarrow> event list \<Rightarrow> result outcome \<times> event list" where
  "terminate_resolved os root_pid timeout tr0 =
     (let (all_procs, tr2) = build_all_procs os (Process root_pid) tr0;
          (res1, tr3) = graceful os all_procs (empty_result, tr2)
      in case wait_for_termination os all_procs timeout tr3 of
           (Raised e, tr4) \<Rightarrow> (Raised e, tr4)
         | (Returned (gone, alive), tr4) \<Rightarrow>
             (let (res3, tr5) = escalate os alive (record_gone gone res1, tr4)
              in (Returned (clean_lists res3), tr5)))"

text \<open>Lines 88-176. The value is the returned dictionary (or the exception that leaves
  the function) together with the log of the psutil calls made.\<close>

definition terminate_process_tree ::
  "psutil \<Rightarrow> int \<Rightarrow> real \<Rightarrow> result outcome \<times> event list" where
  "terminate_process_tree os root_pid timeout =
     (let r0 = Process_new os root_pid []; tr0 = [Process_init root_pid r0] in
      case r0 of
        Raised e \<Rightarrow>
          (case e of
             NoSuchProcess _ \<Rightarrow> (Returned empty_result, tr0)
           | _ \<Rightarrow> (Returned (empty_result\<lparr>failed := [(Some root_pid, ''cannot access process: '' @ str e)]\<rparr>), tr0))
      | Returned _ \<Rightarrow> terminate_resolved os root_pid timeout tr0)"

section \<open>Observing a run of terminate_process_tree\<close>

text \<open>The signals and waits of a run, read off its log in the order they happened.\<close>

fun terminate_of :: "event \<Rightarrow> process list" where
  "terminate_of (Terminate p r) = [p]"
| "terminate_of _ = []"

fun kill_of :: "event \<Rightarrow> process list" where
  "kill_of (Kill p r) = [p]"
| "kill_of _ = []"

fun wait_of :: "event \<Rightarrow> real list" where
  "wait_of (Wait_procs ps t r) = [t]"
| "wait_of _ = []"

definition graceful_requests :: "event list \<Rightarrow> process list" where
  "graceful_requests tr = concat (map terminate_of tr)"

definition forced_kills :: "event list \<Rightarrow> process list" where
  "forced_kills tr = concat (map kill_of tr)"

definition wait_timeouts :: "event list \<Rightarrow> real list" where
  "wait_timeouts tr = concat (map wait_of tr)"

text \<open>The timeouts of the waits after the first one, which is the primary wait.\<close>

definition secondary_waits :: "event list \<Rightarrow> real list" where
  "secondary_waits tr = drop 1 (wait_timeouts tr)"

text \<open>The pids an outcome mentions, and the pids of a list of handles.\<close>

definition bucket_pids :: "result \<Rightarrow> int option set" where
  "bucket_pids res = set (terminated res) \<union> set (killed res) \<union> fst ` set (failed res)"

definition pids_of :: "process list \<Rightarrow> int option set" where
  "pids_of ps = (\<lambda>p. Some (pid p)) ` set ps"

text \<open>The tree of a call whose root resolved: the children reported by
  \<^verbatim>\<open>parent.children(recursive=True)\<close>, the children for which line 118 obtained a
  handle, and \<^verbatim>\<open>all_procs\<close>.\<close>

definition discovered_children :: "psutil \<Rightarrow> int \<Rightarrow> process list" where
  "discovered_children os root_pid =
     fst (enumerate_children os (Process root_pid) [Process_init root_pid (Returned ())])"

definition tree_handles :: "psutil \<Rightarrow> int \<Rightarrow> process list" where
  "tree_handles os root_pid =
     fst (build_all_procs os (Process root_pid) [Process_init root_pid (Returned ())])"

definition descendant_handles :: "psutil \<Rightarrow> int \<Rightarrow> process list" where
  "descendant_handles os root_pid = butlast (tree_handles os root_pid)"

text \<open>What psutil documents of \<^verbatim>\<open>wait_procs\<close>: the two lists it returns split the
  processes it was given.\<close>

definition wait_procs_partitions :: "psutil \<Rightarrow> bool" where
  "wait_procs_partitions os =
     (\<forall>ps t tr gone alive. wait_procs os ps t tr = Returned (gone, alive)
        \<longrightarrow> set gone \<union> set alive = set ps)"

text \<open>The state of a run whose root resolved after line 128 (the dictionary and the log
  when all graceful requests are sent), the answer of psutil to the primary wait of
  line 132, and the state after line 135.\<close>

definition graceful_phase :: "psutil \<Rightarrow> int \<Rightarrow> result \<times> event list" where
  "graceful_phase os root_pid =
     graceful os (tree_handles os root_pid)
       (empty_result, snd (build_all_procs os (Process root_pid) [Process_init root_pid (Returned ())]))"

definition primary_wait_procs :: "psutil \<Rightarrow> int \<Rightarrow> real \<Rightarrow> (process list \<times> process list) outcome" where
  "primary_wait_procs os root_pid timeout =
     wait_procs os (tree_handles os root_pid) timeout (snd (graceful_phase os root_pid))"

definition primary_wait ::
  "psutil \<Rightarrow> int \<Rightarrow> real \<Rightarrow> (process list \<times> process list) outcome \<times> event list" where
  "primary_wait os root_pid timeout =
     wait_for_termination os (tree_handles os root_pid) timeout (snd (graceful_phase os root_pid))"

subsection \<open>Concrete systems\<close>

text \<open>The scenario of the specification: root 10 has the children 11 and 12; 11 and
  the root exit on the graceful request, 12 ignores it and exits on the forced kill.\<close>

definition stubborn_child :: psutil where
  "stubborn_child =
     \<lparr>Process_new = (\<lambda>q tr. Returned ()),
      children = (\<lambda>p tr. Returned (if pid p = 10 then [Process 11, Process 12] else [])),
      terminate = (\<lambda>p tr. Returned ()),
      wait_procs = (\<lambda>ps t tr.
         if forced_kills tr = []
         then Returned (filter (\<lambda>p. pid p \<noteq> 12) ps, filter (\<lambda>p. pid p = 12) ps)
         else Returned (ps, [])),
      is_running = (\<lambda>p tr. Returned (pid p = 12 \<and> forced_kills tr = [])),
      kill = (\<lambda>p tr. Returned ()),
      net_connections = (\<lambda>tr. Returned [])\<rparr>"

text \<open>The same tree, but child 11 has already exited when the graceful request is
  sent, and child 12, alive at the end of the primary wait, has exited when the forced
  kill is sent.\<close>

definition early_exits :: psutil where
  "early_exits =
     \<lparr>Process_new = (\<lambda>q tr. Returned ()),
      children = (\<lambda>p tr. Returned (if pid p = 10 then [Process 11, Process 12] else [])),
      terminate = (\<lambda>p tr. if pid p = 11 then Raised (NoSuchProcess ''process no longer exists'') else Returned ()),
      wait_procs = (\<lambda>ps t tr.
         if forced_kills tr = []
         then Returned (filter (\<lambda>p. pid p \<noteq> 12) ps, filter (\<lambda>p. pid p = 12) ps)
         else Returned (ps, [])),
      is_running = (\<lambda>p tr. Returned False),
      kill = (\<lambda>p tr. Raised (NoSuchProcess ''process no longer exists'')),
      net_connections = (\<lambda>tr. Returned [])\<rparr>"

text \<open>A root that no longer exists, and a root whose lookup fails with another error.\<close>

definition vanished_root :: psutil where
  "vanished_root = stubborn_child\<lparr>Process_new := (\<lambda>q tr. Raised (NoSuchProcess ''process no longer exists''))\<rparr>"

definition denied_root :: psutil where
  "denied_root = stubborn_child\<lparr>Process_new := (\<lambda>q tr. Raised (AccessDenied ''access denied''))\<rparr>"

text \<open>A tree in which pid 0 appears and a child is reported twice; the graceful request
  to pid 0 is refused, and every process is gone at the end of the primary wait.\<close>

definition messy_tree :: psutil where
  "messy_tree =
     \<lparr>Process_new = (\<lambda>q tr. Returned ()),
      children = (\<lambda>p tr. Returned (if pid p = 10 then [Process 0, Process 11, Process 11] else [])),
      terminate = (\<lambda>p tr. if pid p = 0 then Raised (AccessDenied ''access denied'') else Returned ()),
      wait_procs = (\<lambda>ps t tr. Returned (ps, [])),
      is_running = (\<lambda>p tr. Returned False),
      kill = (\<lambda>p tr. Returned ()),
      net_connections = (\<lambda>tr. Returned [])\<rparr>"

subsection \<open>Signals that could not be sent, waits that raised, buckets holding a pid\<close>

text \<open>Whether an entry of the log is a \<^verbatim>\<open>terminate()\<close> or \<^verbatim>\<open>kill()\<close> call on the pid
  that raised, and whether it is a \<^verbatim>\<open>wait_procs\<close> call that raised.\<close>

fun signal_raised_for :: "int \<Rightarrow> event \<Rightarrow> bool" where
  "signal_raised_for q (Terminate p (Raised e)) = (pid p = q)"
| "signal_raised_for q (Kill p (Raised e)) = (pid p = q)"
| "signal_raised_for q _ = False"

fun wait_raised :: "event \<Rightarrow> bool" where
  "wait_raised (Wait_procs ps t (Raised e)) = True"
| "wait_raised _ = False"

text \<open>Every \<^verbatim>\<open>terminate()\<close> and \<^verbatim>\<open>kill()\<close> call of the run on the pid returned; every
  \<^verbatim>\<open>wait_procs\<close> call of the run returned.\<close>

definition signals_delivered :: "event list \<Rightarrow> int \<Rightarrow> bool" where
  "signals_delivered tr q = (\<forall>ev \<in> set tr. \<not> signal_raised_for q ev)"

definition waits_returned :: "event list \<Rightarrow> bool" where
  "waits_returned tr = (\<forall>ev \<in> set tr. \<not> wait_raised ev)"

text \<open>In how many of the three buckets a pid value occurs.\<close>

definition buckets_holding :: "result \<Rightarrow> int option \<Rightarrow> nat" where
  "buckets_holding res x =
     (if x \<in> set (terminated res) then 1 else 0)
     + (if x \<in> set (killed res) then 1 else 0)
     + (if x \<in> fst ` set (failed res) then 1 else 0)"

text \<open>More of what psutil documents of \<^verbatim>\<open>wait_procs\<close>: no process is in both lists it
  returns, and the list of the alive ones repeats no process when the given list repeats
  none.\<close>

definition wait_procs_disjoint :: "psutil \<Rightarrow> bool" where
  "wait_procs_disjoint os =
     (\<forall>ps t tr gone alive. wait_procs os ps t tr = Returned (gone, alive)
        \<longrightarrow> set gone \<inter> set alive = {} \<and> (distinct ps \<longrightarrow> distinct alive))"



definition wait_fails :: psutil where
  "wait_fails = stubborn_child\<lparr>
      wait_procs := (\<lambda>ps t tr. Raised (OtherError ''timeout must be a positive integer'')),
      is_running := (\<lambda>p tr. Returned True)\<rparr>"

text \<open>Three more systems with the tree of the scenario. In the first \<^verbatim>\<open>wait_procs\<close>
  raises and every process has exited. In the second the enumeration lists child 11
  twice, \<^verbatim>\<open>wait_procs\<close> raises, and after the forced kills \<^verbatim>\<open>is_running\<close> answers no
  and then yes for the two handles of child 11.\<close>

definition wait_fails_all_gone :: psutil where
  "wait_fails_all_gone = wait_fails\<lparr>is_running := (\<lambda>p tr. Returned False)\<rparr>"

definition listed_twice :: psutil where
  "listed_twice = wait_fails\<lparr>
      children := (\<lambda>p tr. Returned (if pid p = 10 then [Process 11, Process 11] else [])),
      is_running := (\<lambda>p tr. Returned (forced_kills tr = []
                                      \<or> last tr = Is_running (Process 11) (Returned False)))\<rparr>"

section \<open>process_manager.py: categorize_process and fetch_processes_real_time\<close>

text \<open>
  Strings are ASCII here: \<^verbatim>\<open>str.lower\<close> and \<^verbatim>\<open>str.upper\<close> change the letters A-Z and
  a-z and leave every other character as it is.
\<close>

definition lower_char :: "char \<Rightarrow> char" where
  "lower_char c = (let n = of_char c :: nat in if 65 \<le> n \<and> n \<le> 90 then char_of (n + 32) else c)"

definition upper_char :: "char \<Rightarrow> char" where
  "upper_char c = (let n = of_char c :: nat in if 97 \<le> n \<and> n \<le> 122 then char_of (n - 32) else c)"

definition str_lower :: "string \<Rightarrow> string" where
  "str_lower s = map lower_char s"

definition str_upper :: "string \<Rightarrow> string" where
  "str_upper s = map upper_char s"

text \<open>\<^verbatim>\<open>name or ""\<close>: \<^verbatim>\<open>None\<close> and the empty string both give the empty string.\<close>

definition or_empty :: "string option \<Rightarrow> string" where
  "or_empty name = (case name of None \<Rightarrow> [] | Some s \<Rightarrow> s)"

text \<open>
  Lines 27-37, the body of the \<^verbatim>\<open>try\<close>. An argument that is \<^verbatim>\<open>None\<close> in Python is
  \<open>None\<close> here. The pid is annotated \<^verbatim>\<open>int\<close>, and every caller passes an integer; a
  pid of \<^verbatim>\<open>None\<close> passes the test \<^verbatim>\<open>pid == 0\<close> as false and makes \<^verbatim>\<open>pid <= 4\<close>
  raise TypeError, the one exception the body can raise on these argument types.
\<close>

definition categorize_body :: "int option \<Rightarrow> string option \<Rightarrow> string option \<Rightarrow> string outcome" where
  "categorize_body pid_arg name username =
     (if pid_arg = Some 0 then Returned ''System Idle''
      else
        (case pid_arg of
           None \<Rightarrow> Raised (OtherError ''TypeError'')
         | Some n \<Rightarrow>
             if n \<le> 4 then Returned ''System''
             else
               (case username of
                  None \<Rightarrow> Returned ''Background''
                | Some u \<Rightarrow>
                    (let uname = str_upper u;
                         lname = str_lower (or_empty name)
                     in if sublist ''service'' lname \<or> uname = ''SYSTEM''
                           \<or> prefix ''NT AUTHORITY'' uname
                        then Returned ''Services''
                        else Returned ''User''))))"

text \<open>Lines 24-39: the \<^verbatim>\<open>except Exception\<close> turns every exception into "Other".\<close>

definition categorize_process :: "int option \<Rightarrow> string option \<Rightarrow> string option \<Rightarrow> string" where
  "categorize_process pid_arg name username =
     (case categorize_body pid_arg name username of
        Returned category \<Rightarrow> category
      | Raised _ \<Rightarrow> ''Other'')"

text \<open>
  The snapshot. \<^verbatim>\<open>process_iter\<close> yields process objects carrying the dictionary
  \<^verbatim>\<open>info\<close>, where an attribute that could not be read is \<^verbatim>\<open>None\<close>. What one yielded
  process answers in the loop body is part of the input: the reading of its attributes
  (lines 56-59 and 64-66, guarded only by the handler of line 84), and the calls
  \<^verbatim>\<open>cpu_percent\<close> and \<^verbatim>\<open>threads\<close>, each called once and each inside a handler of its
  own.
\<close>

record info =
  info_pid :: "int option"
  info_name :: "string option"
  info_username :: "string option"
  info_rss :: "int option"
  info_exe :: "string option"
  info_cmdline :: "string list option"

record iterated =
  read_info :: "info outcome"
  cpu_percent :: "real outcome"
  threads :: "int list outcome"

record entry =
  entry_pid :: int
  entry_name :: string
  entry_user :: "string option"
  entry_cpu :: real
  entry_mem :: int
  entry_mem_human :: string
  entry_category :: string
  entry_exe :: "string option"
  entry_cmdline :: "string list"
  entry_threads :: "int list"

text \<open>Lines 57-83, for a process whose attributes were read. \<open>human_mem_mb\<close> is the
  formatting function of lines 17-22, taken as a parameter.\<close>

definition make_entry :: "(int \<Rightarrow> string) \<Rightarrow> iterated \<Rightarrow> info \<Rightarrow> entry" where
  "make_entry human_mem_mb p i =
     (let pid_v = (case info_pid i of None \<Rightarrow> 0 | Some n \<Rightarrow> n);
          name = (case info_name i of None \<Rightarrow> ''<unknown>''
                  | Some s \<Rightarrow> if s = [] then ''<unknown>'' else s);
          user = info_username i;
          cpu = (case cpu_percent p of Returned c \<Rightarrow> c | Raised _ \<Rightarrow> 0);
          mem = (case info_rss i of None \<Rightarrow> 0 | Some rss \<Rightarrow> rss);
          exe = info_exe i;
          cmdline = (case info_cmdline i of None \<Rightarrow> [] | Some c \<Rightarrow> c);
          category = categorize_process (Some pid_v) (Some name) user;
          ths = (case threads p of Returned ts \<Rightarrow> ts | Raised _ \<Rightarrow> [])
      in \<lparr>entry_pid = pid_v, entry_name = name, entry_user = user, entry_cpu = cpu,
          entry_mem = mem, entry_mem_human = human_mem_mb mem, entry_category = category,
          entry_exe = exe, entry_cmdline = cmdline, entry_threads = ths\<rparr>)"

text \<open>Lines 54-85: the loop. \<^verbatim>\<open>NoSuchProcess\<close> and \<^verbatim>\<open>AccessDenied\<close> skip the process;
  any other exception leaves the function.\<close>

fun snapshot_loop :: "(int \<Rightarrow> string) \<Rightarrow> iterated list \<Rightarrow> entry list \<Rightarrow> entry list outcome" where
  "snapshot_loop human_mem_mb [] procs = Returned procs"
| "snapshot_loop human_mem_mb (p # ps) procs =
     (case read_info p of
        Returned i \<Rightarrow> snapshot_loop human_mem_mb ps (procs @ [make_entry human_mem_mb p i])
      | Raised e \<Rightarrow>
          (case e of
             NoSuchProcess _ \<Rightarrow> snapshot_loop human_mem_mb ps procs
           | AccessDenied _ \<Rightarrow> snapshot_loop human_mem_mb ps procs
           | OtherError _ \<Rightarrow> Raised e))"

text \<open>Lines 48-52: the first pass only starts the CPU measurement; whatever
  \<^verbatim>\<open>cpu_percent\<close> answers or raises is dropped.\<close>

definition prepare_cpu_sampling :: "iterated list \<Rightarrow> unit" where
  "prepare_cpu_sampling ps = fold (\<lambda>p u. case cpu_percent p of Returned _ \<Rightarrow> () | Raised _ \<Rightarrow> ()) ps ()"

text \<open>Lines 41-86, given what the two enumerations yield.\<close>

definition fetch_processes_real_time ::
  "(int \<Rightarrow> string) \<Rightarrow> iterated list \<Rightarrow> iterated list \<Rightarrow> entry list outcome" where
  "fetch_processes_real_time human_mem_mb first_pass second_pass =
     (let u = prepare_cpu_sampling first_pass
      in snapshot_loop human_mem_mb second_pass [])"

text \<open>A process that exits after it was enumerated: its attributes were read, and both
  later calls raise \<^verbatim>\<open>NoSuchProcess\<close>. A process whose attributes cannot be read. A
  healthy process.\<close>

definition exited_after_enumeration :: iterated where
  "exited_after_enumeration =
     \<lparr>read_info = Returned \<lparr>info_pid = Some 77, info_name = Some ''worker'', info_username = Some ''alice'',
                            info_rss = Some 4096, info_exe = None, info_cmdline = None\<rparr>,
      cpu_percent = Raised (NoSuchProcess ''process no longer exists''),
      threads = Raised (NoSuchProcess ''process no longer exists'')\<rparr>"

definition unreadable :: iterated where
  "unreadable =
     \<lparr>read_info = Raised (AccessDenied ''access denied''),
      cpu_percent = Raised (AccessDenied ''access denied''),
      threads = Raised (AccessDenied ''access denied'')\<rparr>"

definition healthy :: iterated where
  "healthy =
     \<lparr>read_info = Returned \<lparr>info_pid = Some 80, info_name = Some ''PrintService'', info_username = Some ''bob'',
                            info_rss = Some 1048576, info_exe = Some ''/usr/bin/ps'', info_cmdline = Some [''ps'']\<rparr>,
      cpu_percent = Returned 2,
      threads = Returned [80, 81]\<rparr>"

text \<open>The entries of the processes whose attributes were read, in enumeration order.\<close>

definition returned_entries :: "(int \<Rightarrow> string) \<Rightarrow> iterated list \<Rightarrow> entry list" where
  "returned_entries human_mem_mb ps =
     concat (map (\<lambda>p. case read_info p of Returned i \<Rightarrow> [make_entry human_mem_mb p i] | Raised _ \<Rightarrow> []) ps)"

section \<open>port_manager.py\<close>

text \<open>Lines 22-27: the handles of the owners of the connections on the port, in table
  order. A connection is taken when its local address is not empty, the port of the
  address is the one asked for, and its pid is neither \<^verbatim>\<open>None\<close> nor 0; an owner whose
  handle cannot be created is skipped.\<close>

fun collect_port_procs :: "psutil \<Rightarrow> int \<Rightarrow> conn list \<Rightarrow> event list \<Rightarrow> process list \<times> event list" where
  "collect_port_procs os port [] tr = ([], tr)"
| "collect_port_procs os port (c # cs) tr =
     (case (laddr c, conn_pid c) of
        (Some (ip, lport), Some q) \<Rightarrow>
          if lport = port \<and> q \<noteq> 0
          then
            (let r = Process_new os q tr;
                 (ps, tr') = collect_port_procs os port cs (tr @ [Process_init q r])
             in (case r of Returned _ \<Rightarrow> Process q # ps | Raised _ \<Rightarrow> ps, tr'))
          else collect_port_procs os port cs tr
      | _ \<Rightarrow> collect_port_procs os port cs tr)"

text \<open>Lines 30-34: the dictionary \<^verbatim>\<open>unique\<close>, keyed by pid, as an association list in
  insertion order, and its values.\<close>

definition dedupe_by_pid :: "process list \<Rightarrow> process list" where
  "dedupe_by_pid procs = map snd (fold (\<lambda>p unique. AList.update (pid p) p unique) procs [])"

text \<open>Lines 18-34: the returned list and the log of the psutil calls.\<close>

definition find_processes_using_port :: "psutil \<Rightarrow> int \<Rightarrow> process list \<times> event list" where
  "find_processes_using_port os port =
     (let r = net_connections os [];
          tr0 = [Net_connections r];
          (procs, tr) = (case r of
                           Returned conns \<Rightarrow> collect_port_procs os port conns tr0
                         | Raised _ \<Rightarrow> ([], tr0))
      in (dedupe_by_pid procs, tr))"

text \<open>The pids of the connections of a table that are on the port and have a nonzero
  owner, in table order.\<close>

definition port_owners :: "int \<Rightarrow> conn list \<Rightarrow> int list" where
  "port_owners port conns =
     concat (map (\<lambda>c. case (laddr c, conn_pid c) of
                        (Some (ip, lport), Some q) \<Rightarrow> if lport = port \<and> q \<noteq> 0 then [q] else []
                      | _ \<Rightarrow> []) conns)"

fun resolved_of :: "event \<Rightarrow> int list" where
  "resolved_of (Process_init q (Returned u)) = [q]"
| "resolved_of _ = []"

text \<open>The pids for which a handle was created during a run.\<close>

definition resolved_pids :: "event list \<Rightarrow> int list" where
  "resolved_pids tr = concat (map resolved_of tr)"

subsection \<open>Operator input\<close>

text \<open>\<^verbatim>\<open>str.strip()\<close> and \<^verbatim>\<open>int(s)\<close> on ASCII text: optional sign, then decimal
  digits, where single underscores may stand between digits.\<close>

definition is_space :: "char \<Rightarrow> bool" where
  "is_space c = (let n = of_char c :: nat in n = 32 \<or> (9 \<le> n \<and> n \<le> 13) \<or> (28 \<le> n \<and> n \<le> 31))"

definition strip :: "string \<Rightarrow> string" where
  "strip s = rev (dropWhile is_space (rev (dropWhile is_space s)))"

definition digit_of :: "char \<Rightarrow> nat option" where
  "digit_of c = (let n = of_char c :: nat in if 48 \<le> n \<and> n \<le> 57 then Some (n - 48) else None)"

fun digits_value :: "string \<Rightarrow> nat \<Rightarrow> bool \<Rightarrow> nat option" where
  "digits_value [] acc after_digit = (if after_digit then Some acc else None)"
| "digits_value (c # cs) acc after_digit =
     (if c = CHR ''_'' then (if after_digit then digits_value cs acc False else None)
      else (case digit_of c of
              None \<Rightarrow> None
            | Some v \<Rightarrow> digits_value cs (10 * acc + v) True))"

definition py_int :: "string \<Rightarrow> int option" where
  "py_int raw =
     (case strip raw of
        [] \<Rightarrow> None
      | c # cs \<Rightarrow>
          if c = CHR ''-'' then map_option (\<lambda>n. - int n) (digits_value cs 0 False)
          else if c = CHR ''+'' then map_option int (digits_value cs 0 False)
          else map_option int (digits_value (c # cs) 0 False))"

text \<open>What an interactive function did with the operator's input: it printed a message
  and returned without calling anything, or it went on.\<close>

datatype 'a proceeded = Rejected string | Proceeded 'a

text \<open>Lines 44-57 of \<^verbatim>\<open>free_port_interactive\<close>: the input line, then the lookup of the
  processes on the port. \<open>Proceeded (port, procs, tr)\<close> says that
  \<^verbatim>\<open>find_processes_using_port(port)\<close> was called, with its result and its log. The rest
  of the function (listing, confirmation, termination of each tree, second lookup) works
  on that port.\<close>

definition free_port_interactive ::
  "psutil \<Rightarrow> string \<Rightarrow> (int \<times> process list \<times> event list) proceeded" where
  "free_port_interactive os line =
     (let s = strip line in
      if s = [] then Rejected ''No port provided.''
      else
        (case py_int s of
           None \<Rightarrow> Rejected ''Invalid port.''
         | Some port \<Rightarrow>
             (let (procs, tr) = find_processes_using_port os port
              in Proceeded (port, procs, tr))))"

text \<open>Lines 108-128 of \<^verbatim>\<open>show_ports_range\<close>: the two input lines, the range check, and
  the connect probe of every port from start to end. \<open>connect_ex\<close> tells whether the
  probe of a port succeeded.\<close>

definition show_ports_range ::
  "(int \<Rightarrow> bool) \<Rightarrow> string \<Rightarrow> string \<Rightarrow> (int \<times> string) list proceeded" where
  "show_ports_range connect_ex line1 line2 =
     (case py_int (strip line1) of
        None \<Rightarrow> Rejected ''Invalid input.''
      | Some start \<Rightarrow>
          (case py_int (strip line2) of
             None \<Rightarrow> Rejected ''Invalid input.''
           | Some end_port \<Rightarrow>
               if start < 1 \<or> end_port > 65535 \<or> start > end_port
               then Rejected ''Invalid range.''
               else Proceeded (map (\<lambda>port. (port, if connect_ex port then ''OCCUPIED'' else ''FREE''))
                                [start..end_port])))"

text \<open>A connection table with two sockets of pid 4321 on port 8080, one socket of pid
  99 on port 22 and an unowned socket on 8080; in \<open>listener_gone\<close> the owner has exited
  when its handle is created.\<close>

definition sample_table :: "conn list" where
  "sample_table =
     [\<lparr>laddr = Some (''127.0.0.1'', 8080), conn_pid = Some 4321\<rparr>,
      \<lparr>laddr = Some (''0.0.0.0'', 22), conn_pid = Some 99\<rparr>,
      \<lparr>laddr = Some (''::1'', 8080), conn_pid = Some 4321\<rparr>,
      \<lparr>laddr = Some (''127.0.0.1'', 8080), conn_pid = None\<rparr>,
      \<lparr>laddr = None, conn_pid = Some 5\<rparr>]"

definition listener_alive :: psutil where
  "listener_alive = stubborn_child\<lparr>net_connections := (\<lambda>tr. Returned sample_table)\<rparr>"

definition listener_gone :: psutil where
  "listener_gone = vanished_root\<lparr>net_connections := (\<lambda>tr. Returned sample_table)\<rparr>"

fun looked_up_of :: "event \<Rightarrow> int list" where
  "looked_up_of (Process_init q r) = [q]"
| "looked_up_of _ = []"

text \<open>The pids for which the creation of a handle was attempted during a run.\<close>

definition looked_up_pids :: "event list \<Rightarrow> int list" where
  "looked_up_pids tr = concat (map looked_up_of tr)"

section \<open>Facts about the phases of terminate_process_tree\<close>

lemma proj_append [simp]:
  "graceful_requests (a @ b) = graceful_requests a @ graceful_requests b"
  "forced_kills (a @ b) = forced_kills a @ forced_kills b"
  "wait_timeouts (a @ b) = wait_timeouts a @ wait_timeouts b"
  by (simp_all add: graceful_requests_def forced_kills_def wait_timeouts_def)

lemma proj_Nil [simp]:
  "graceful_requests [] = []" "forced_kills [] = []" "wait_timeouts [] = []"
  by (simp_all add: graceful_requests_def forced_kills_def wait_timeouts_def)

lemma proj_Cons [simp]:
  "graceful_requests (e # b) = terminate_of e @ graceful_requests b"
  "forced_kills (e # b) = kill_of e @ forced_kills b"
  "wait_timeouts (e # b) = wait_of e @ wait_timeouts b"
  by (simp_all add: graceful_requests_def forced_kills_def wait_timeouts_def)

lemma obs_append [simp]:
  "resolved_pids (a @ b) = resolved_pids a @ resolved_pids b"
  "looked_up_pids (a @ b) = looked_up_pids a @ looked_up_pids b"
  by (simp_all add: resolved_pids_def looked_up_pids_def)

lemma obs_Nil [simp]: "resolved_pids [] = []" "looked_up_pids [] = []"
  by (simp_all add: resolved_pids_def looked_up_pids_def)

lemma obs_Cons [simp]:
  "resolved_pids (e # b) = resolved_of e @ resolved_pids b"
  "looked_up_pids (e # b) = looked_up_of e @ looked_up_pids b"
  by (simp_all add: resolved_pids_def looked_up_pids_def)

lemma resolve_children_trace:
  "\<exists>evs. snd (resolve_children os cs tr) = tr @ evs \<and> graceful_requests evs = []
      \<and> forced_kills evs = [] \<and> wait_timeouts evs = []"
proof (induction cs arbitrary: tr)
  case Nil
  then show ?case by simp
next
  case (Cons c cs)
  obtain evs where e: "snd (resolve_children os cs (tr @ [Process_init (pid c) (Process_new os (pid c) tr)])) = (tr @ [Process_init (pid c) (Process_new os (pid c) tr)]) @ evs"
    "graceful_requests evs = []" "forced_kills evs = []" "wait_timeouts evs = []"
    using Cons.IH by blast
  show ?case
    apply (rule exI [of _ "Process_init (pid c) (Process_new os (pid c) tr) # evs"])
    using e by (simp add: Let_def split_beta)
qed

lemma graceful_trace:
  "\<exists>evs. snd (graceful os ps (res, tr)) = tr @ evs \<and> graceful_requests evs = ps
      \<and> forced_kills evs = [] \<and> wait_timeouts evs = []"
proof (induction ps arbitrary: res tr)
  case Nil
  then show ?case by simp
next
  case (Cons p ps)
  let ?r = "terminate os p tr"
  let ?res = "case ?r of Returned _ \<Rightarrow> res
         | Raised e \<Rightarrow> res\<lparr>failed := failed res @ [(getattr_pid p, ''terminate error: '' @ str e)]\<rparr>"
  obtain evs where e: "snd (graceful os ps (?res, tr @ [Terminate p ?r])) = (tr @ [Terminate p ?r]) @ evs"
    "graceful_requests evs = ps" "forced_kills evs = []" "wait_timeouts evs = []"
    using Cons.IH by blast
  show ?case
    apply (rule exI [of _ "Terminate p ?r # evs"])
    using e by (simp add: Let_def)
qed

lemma running_procs_trace:
  "\<exists>evs. snd (running_procs os ps tr) = tr @ evs \<and> graceful_requests evs = []
      \<and> forced_kills evs = [] \<and> wait_timeouts evs = []"
proof (induction ps arbitrary: tr)
  case Nil
  then show ?case by simp
next
  case (Cons p ps)
  let ?e = "Is_running p (is_running os p tr)"
  obtain evs where e: "snd (running_procs os ps (tr @ [?e])) = (tr @ [?e]) @ evs"
    "graceful_requests evs = []" "forced_kills evs = []" "wait_timeouts evs = []"
    using Cons.IH by blast
  show ?case
  proof (cases "is_running os p tr")
    case (Raised x)
    then show ?thesis by (simp add: Let_def)
  next
    case (Returned b)
    show ?thesis
      apply (rule exI [of _ "?e # evs"])
      using e Returned by (auto simp add: Let_def split: prod.splits outcome.splits)
  qed
qed

lemma running_procs_subset:
  "running_procs os ps tr = (Returned qs, tr') \<Longrightarrow> set qs \<subseteq> set ps"
proof (induction ps arbitrary: tr qs tr')
  case Nil
  then show ?case by simp
next
  case (Cons p ps)
  from Cons.prems obtain b qs' where
    r: "running_procs os ps (tr @ [Is_running p (is_running os p tr)]) = (Returned qs', tr')"
    and q: "qs = (if b then p # qs' else qs')"
    by (auto simp add: Let_def split: prod.splits outcome.splits)
  from Cons.IH [OF r] q show ?case by auto
qed

lemma force_kill_trace:
  "\<exists>evs. snd (force_kill os ps (res, tr)) = tr @ evs \<and> graceful_requests evs = []
      \<and> forced_kills evs = ps \<and> wait_timeouts evs = []"
proof (induction ps arbitrary: res tr)
  case Nil
  then show ?case by simp
next
  case (Cons p ps)
  let ?r = "kill os p tr"
  let ?res = "case ?r of
           Returned _ \<Rightarrow> res
         | Raised e \<Rightarrow>
             (case e of
                NoSuchProcess _ \<Rightarrow> res\<lparr>terminated := terminated res @ [getattr_pid p]\<rparr>
              | _ \<Rightarrow> res\<lparr>failed := failed res @ [(getattr_pid p, ''kill error: '' @ str e)]\<rparr>)"
  obtain evs where e: "snd (force_kill os ps (?res, tr @ [Kill p ?r])) = (tr @ [Kill p ?r]) @ evs"
    "graceful_requests evs = []" "forced_kills evs = ps" "wait_timeouts evs = []"
    using Cons.IH by blast
  show ?case
    apply (rule exI [of _ "Kill p ?r # evs"])
    using e by (simp add: Let_def)
qed

lemma check_after_kill_trace:
  "\<exists>evs. snd (check_after_kill os ps (res, tr)) = tr @ evs \<and> graceful_requests evs = []
      \<and> forced_kills evs = [] \<and> wait_timeouts evs = []"
proof (induction ps arbitrary: res tr)
  case Nil
  then show ?case by simp
next
  case (Cons p ps)
  let ?r = "is_running os p tr"
  let ?res = "case ?r of
           Returned b \<Rightarrow>
             (if \<not> b
              then (if Some (pid p) \<notin> set (terminated res)
                    then res\<lparr>killed := killed res @ [Some (pid p)]\<rparr> else res)
              else res\<lparr>failed := failed res @ [(getattr_pid p, ''still alive after kill'')]\<rparr>)
         | Raised _ \<Rightarrow> res\<lparr>failed := failed res @ [(getattr_pid p, ''unknown state'')]\<rparr>"
  obtain evs where e: "snd (check_after_kill os ps (?res, tr @ [Is_running p ?r])) = (tr @ [Is_running p ?r]) @ evs"
    "graceful_requests evs = []" "forced_kills evs = []" "wait_timeouts evs = []"
    using Cons.IH by blast
  show ?case
    apply (rule exI [of _ "Is_running p ?r # evs"])
    using e by (simp add: Let_def)
qed

lemma fold_fromkeys_set:
  "set (fold (\<lambda>x ks. if x \<in> set ks then ks else ks @ [x]) xs acc) = set acc \<union> set xs"
  by (induction xs arbitrary: acc) auto

lemma fold_fromkeys_distinct:
  "distinct acc \<Longrightarrow> distinct (fold (\<lambda>x ks. if x \<in> set ks then ks else ks @ [x]) xs acc)"
  by (induction xs arbitrary: acc) auto

lemma set_dict_fromkeys [simp]: "set (dict_fromkeys xs) = set xs"
  by (simp add: dict_fromkeys_def fold_fromkeys_set)

lemma distinct_dict_fromkeys [simp]: "distinct (dict_fromkeys xs)"
  by (simp add: dict_fromkeys_def fold_fromkeys_distinct)

lemma clean_terminated: "set (terminated (clean_lists res)) = {x \<in> set (terminated res). truthy x}"
  by (auto simp add: clean_lists_def Let_def)

lemma clean_killed:
  "set (killed (clean_lists res)) = {x \<in> set (killed res). truthy x \<and> x \<notin> set (terminated res)}"
  by (auto simp add: clean_lists_def Let_def)

lemma clean_failed: "set (failed (clean_lists res)) = {e \<in> set (failed res). truthy (fst e)}"
  by (auto simp add: clean_lists_def Let_def)

lemma clean_distinct: "distinct (terminated (clean_lists res))" "distinct (killed (clean_lists res))"
  by (simp_all add: clean_lists_def Let_def)

lemma clean_bucket_subset: "bucket_pids (clean_lists res) \<subseteq> bucket_pids res"
  by (auto simp add: bucket_pids_def clean_terminated clean_killed clean_failed)

lemma clean_bucket_keeps: "truthy x \<Longrightarrow> x \<in> bucket_pids res \<Longrightarrow> x \<in> bucket_pids (clean_lists res)"
  by (force simp add: bucket_pids_def clean_terminated clean_killed clean_failed)

lemma graceful_result:
  "terminated (fst (graceful os ps (res, tr))) = terminated res
   \<and> killed (fst (graceful os ps (res, tr))) = killed res
   \<and> set (failed res) \<subseteq> set (failed (fst (graceful os ps (res, tr))))
   \<and> fst ` set (failed (fst (graceful os ps (res, tr)))) \<subseteq> fst ` set (failed res) \<union> pids_of ps"
proof (induction ps arbitrary: res tr)
  case Nil
  then show ?case by (simp add: pids_of_def)
next
  case (Cons p ps)
  show ?case
  proof (cases "terminate os p tr")
    case (Raised e)
    let ?res = "res\<lparr>failed := failed res @ [(getattr_pid p, ''terminate error: '' @ str e)]\<rparr>"
    from Cons.IH [of ?res "tr @ [Terminate p (Raised e)]"] Raised
    show ?thesis by (auto simp add: pids_of_def getattr_pid_def)
  next
    case (Returned u)
    from Cons.IH [of res "tr @ [Terminate p (Returned u)]"] Returned
    show ?thesis by (auto simp add: pids_of_def)
  qed
qed

lemma force_kill_result:
  "killed (fst (force_kill os ps (res, tr))) = killed res
   \<and> set (terminated res) \<subseteq> set (terminated (fst (force_kill os ps (res, tr))))
   \<and> set (terminated (fst (force_kill os ps (res, tr)))) \<subseteq> set (terminated res) \<union> pids_of ps
   \<and> set (failed res) \<subseteq> set (failed (fst (force_kill os ps (res, tr))))
   \<and> fst ` set (failed (fst (force_kill os ps (res, tr)))) \<subseteq> fst ` set (failed res) \<union> pids_of ps"
proof (induction ps arbitrary: res tr)
  case Nil
  then show ?case by (simp add: pids_of_def)
next
  case (Cons p ps)
  show ?case
  proof (cases "kill os p tr")
    case (Returned u)
    from Cons.IH [of res "tr @ [Kill p (Returned u)]"] Returned
    show ?thesis by (auto simp add: pids_of_def)
  next
    case (Raised e)
    show ?thesis
    proof (cases e)
      case (NoSuchProcess m)
      let ?res = "res\<lparr>terminated := terminated res @ [getattr_pid p]\<rparr>"
      from Cons.IH [of ?res "tr @ [Kill p (Raised e)]"] Raised NoSuchProcess
      show ?thesis by (auto simp add: pids_of_def getattr_pid_def)
    next
      case (AccessDenied m)
      let ?res = "res\<lparr>failed := failed res @ [(getattr_pid p, ''kill error: '' @ str e)]\<rparr>"
      from Cons.IH [of ?res "tr @ [Kill p (Raised e)]"] Raised AccessDenied
      show ?thesis by (auto simp add: pids_of_def getattr_pid_def)
    next
      case (OtherError m)
      let ?res = "res\<lparr>failed := failed res @ [(getattr_pid p, ''kill error: '' @ str e)]\<rparr>"
      from Cons.IH [of ?res "tr @ [Kill p (Raised e)]"] Raised OtherError
      show ?thesis by (auto simp add: pids_of_def getattr_pid_def)
    qed
  qed
qed

lemma record_killed_result:
  "terminated (record_killed ps res) = terminated res
   \<and> failed (record_killed ps res) = failed res
   \<and> set (killed res) \<subseteq> set (killed (record_killed ps res))
   \<and> set (killed (record_killed ps res)) \<subseteq> set (killed res) \<union> pids_of ps
   \<and> pids_of ps \<subseteq> set (killed (record_killed ps res)) \<union> set (terminated res)"
proof (induction ps arbitrary: res)
  case Nil
  then show ?case by (simp add: pids_of_def)
next
  case (Cons p ps)
  show ?case
  proof (cases "Some (pid p) \<in> set (terminated res)")
    case True
    with Cons.IH [of res] show ?thesis by (auto simp add: pids_of_def)
  next
    case False
    with Cons.IH [of "res\<lparr>killed := killed res @ [Some (pid p)]\<rparr>"] show ?thesis
      by (auto simp add: pids_of_def)
  qed
qed

lemma record_still_alive_result:
  "terminated (record_still_alive ps res) = terminated res
   \<and> killed (record_still_alive ps res) = killed res
   \<and> fst ` set (failed (record_still_alive ps res)) = fst ` set (failed res) \<union> pids_of ps"
  by (auto simp add: record_still_alive_def pids_of_def getattr_pid_def image_Un image_image)

lemma check_after_kill_result:
  "terminated (fst (check_after_kill os ps (res, tr))) = terminated res
   \<and> set (killed res) \<subseteq> set (killed (fst (check_after_kill os ps (res, tr))))
   \<and> set (failed res) \<subseteq> set (failed (fst (check_after_kill os ps (res, tr))))
   \<and> bucket_pids (fst (check_after_kill os ps (res, tr))) \<subseteq> bucket_pids res \<union> pids_of ps
   \<and> pids_of ps \<subseteq> bucket_pids (fst (check_after_kill os ps (res, tr)))"
proof (induction ps arbitrary: res tr)
  case Nil
  then show ?case by (simp add: pids_of_def)
next
  case (Cons p ps)
  define r where "r = is_running os p tr"
  define res' where "res' = (case r of
           Returned b \<Rightarrow>
             (if \<not> b
              then (if Some (pid p) \<notin> set (terminated res)
                    then res\<lparr>killed := killed res @ [Some (pid p)]\<rparr> else res)
              else res\<lparr>failed := failed res @ [(getattr_pid p, ''still alive after kill'')]\<rparr>)
         | Raised _ \<Rightarrow> res\<lparr>failed := failed res @ [(getattr_pid p, ''unknown state'')]\<rparr>)"
  define out where "out = fst (check_after_kill os ps (res', tr @ [Is_running p r]))"
  have step: "fst (check_after_kill os (p # ps) (res, tr)) = out"
    by (simp add: Let_def out_def res'_def r_def)
  have a: "terminated res' = terminated res" "set (killed res) \<subseteq> set (killed res')"
    "set (failed res) \<subseteq> set (failed res')"
    by (auto simp add: res'_def split: outcome.splits)
  have b: "bucket_pids res' \<subseteq> bucket_pids res \<union> {Some (pid p)}"
    by (auto simp add: res'_def bucket_pids_def getattr_pid_def split: outcome.splits)
  have c: "Some (pid p) \<in> bucket_pids res'"
    by (auto simp add: res'_def bucket_pids_def getattr_pid_def split: outcome.splits)
  have ih: "terminated out = terminated res'" "set (killed res') \<subseteq> set (killed out)"
    "set (failed res') \<subseteq> set (failed out)" "bucket_pids out \<subseteq> bucket_pids res' \<union> pids_of ps"
    "pids_of ps \<subseteq> bucket_pids out"
    using Cons.IH [of res' "tr @ [Is_running p r]"] by (simp_all add: out_def)
  have d: "bucket_pids res' \<subseteq> bucket_pids out"
    using ih(1-3) by (auto simp add: bucket_pids_def)
  have e: "pids_of (p # ps) = insert (Some (pid p)) (pids_of ps)"
    by (simp add: pids_of_def)
  have f1: "terminated out = terminated res" using a ih by simp
  have f2: "set (killed res) \<subseteq> set (killed out)" using a ih by blast
  have f3: "set (failed res) \<subseteq> set (failed out)" using a ih by blast
  have f4: "bucket_pids out \<subseteq> bucket_pids res \<union> insert (Some (pid p)) (pids_of ps)" using b ih(4) by blast
  have f5: "insert (Some (pid p)) (pids_of ps) \<subseteq> bucket_pids out" using c d ih(5) by blast
  show ?case
    unfolding step e using f1 f2 f3 f4 f5 by simp
qed

lemma kill_in_forced_kills: "Kill p r \<in> set evs \<Longrightarrow> p \<in> set (forced_kills evs)"
  by (induction evs) auto

lemma wait_for_termination_trace:
  "\<exists>evs. snd (wait_for_termination os ps timeout tr) = tr @ Wait_procs ps timeout (wait_procs os ps timeout tr) # evs
      \<and> graceful_requests evs = [] \<and> forced_kills evs = [] \<and> wait_timeouts evs = []"
proof (cases "wait_procs os ps timeout tr")
  case (Returned ga)
  then show ?thesis
    by (cases ga) (simp add: wait_for_termination_def Let_def)
next
  case (Raised e)
  obtain evs where e: "snd (running_procs os ps (tr @ [Wait_procs ps timeout (Raised e)])) = (tr @ [Wait_procs ps timeout (Raised e)]) @ evs"
    "graceful_requests evs = []" "forced_kills evs = []" "wait_timeouts evs = []"
    using running_procs_trace by blast
  show ?thesis
    apply (rule exI [of _ evs])
    using e Raised by (auto simp add: wait_for_termination_def Let_def split: prod.splits outcome.splits)
qed

lemma wait_for_termination_subset:
  assumes "wait_procs_partitions os"
    and "wait_for_termination os ps timeout tr = (Returned (gone, alive), tr')"
  shows "set gone \<union> set alive \<subseteq> set ps"
proof (cases "wait_procs os ps timeout tr")
  case (Returned ga)
  with assms(2) have "wait_procs os ps timeout tr = Returned (gone, alive)"
    by (cases ga) (simp add: wait_for_termination_def Let_def)
  with assms(1) show ?thesis by (simp add: wait_procs_partitions_def)
next
  case (Raised e)
  with assms(2) obtain tr2 where "running_procs os ps (tr @ [Wait_procs ps timeout (Raised e)]) = (Returned alive, tr2)"
    and "gone = []"
    by (auto simp add: wait_for_termination_def Let_def split: prod.splits outcome.splits)
  then show ?thesis using running_procs_subset by fastforce
qed

lemma wait_for_termination_cover:
  assumes "wait_procs_partitions os"
    and "wait_procs os ps timeout tr = Returned ga"
    and "wait_for_termination os ps timeout tr = (Returned (gone, alive), tr')"
  shows "set gone \<union> set alive = set ps"
proof -
  from assms(2,3) have "wait_procs os ps timeout tr = Returned (gone, alive)"
    by (cases ga) (simp add: wait_for_termination_def Let_def)
  with assms(1) show ?thesis by (simp add: wait_procs_partitions_def)
qed

lemma escalate_trace:
  "\<exists>evs. snd (escalate os alive (res, tr)) = tr @ evs \<and> graceful_requests evs = []
      \<and> forced_kills evs = alive \<and> wait_timeouts evs = (if alive = [] then [] else [3])"
proof (cases "alive = []")
  case True
  then show ?thesis by (simp add: escalate_def)
next
  case False
  obtain e1 where e1: "snd (force_kill os alive (res, tr)) = tr @ e1"
    "graceful_requests e1 = []" "forced_kills e1 = alive" "wait_timeouts e1 = []"
    using force_kill_trace by blast
  define res1 where "res1 = fst (force_kill os alive (res, tr))"
  define r where "r = wait_procs os alive 3 (tr @ e1)"
  have fk: "force_kill os alive (res, tr) = (res1, tr @ e1)"
    using e1(1) by (simp add: res1_def prod_eq_iff)
  show ?thesis
  proof (cases r)
    case (Returned ga)
    have "snd (escalate os alive (res, tr)) = tr @ (e1 @ [Wait_procs alive 3 r])"
      using False fk Returned by (cases ga) (simp add: escalate_def r_def)
    then show ?thesis
      using e1 False by (intro exI [of _ "e1 @ [Wait_procs alive 3 r]"]) simp
  next
    case (Raised x)
    obtain e2 where e2: "snd (check_after_kill os alive (res1, (tr @ e1) @ [Wait_procs alive 3 r])) = ((tr @ e1) @ [Wait_procs alive 3 r]) @ e2"
      "graceful_requests e2 = []" "forced_kills e2 = []" "wait_timeouts e2 = []"
      using check_after_kill_trace by blast
    have "snd (escalate os alive (res, tr)) = tr @ (e1 @ Wait_procs alive 3 r # e2)"
      using False fk Raised e2(1) by (simp add: escalate_def r_def)
    then show ?thesis
      using e1 e2 False by (intro exI [of _ "e1 @ Wait_procs alive 3 r # e2"]) simp
  qed
qed

lemma escalate_result:
  assumes "wait_procs_partitions os"
  shows "set (terminated res) \<subseteq> set (terminated (fst (escalate os alive (res, tr))))
   \<and> bucket_pids res \<subseteq> bucket_pids (fst (escalate os alive (res, tr)))
   \<and> bucket_pids (fst (escalate os alive (res, tr))) \<subseteq> bucket_pids res \<union> pids_of alive
   \<and> pids_of alive \<subseteq> bucket_pids (fst (escalate os alive (res, tr)))"
proof (cases "alive = []")
  case True
  then show ?thesis by (simp add: escalate_def pids_of_def)
next
  case False
  define res1 where "res1 = fst (force_kill os alive (res, tr))"
  define tr1 where "tr1 = snd (force_kill os alive (res, tr))"
  define r where "r = wait_procs os alive 3 tr1"
  have fk: "force_kill os alive (res, tr) = (res1, tr1)"
    by (simp add: res1_def tr1_def)
  have k: "killed res1 = killed res" "set (terminated res) \<subseteq> set (terminated res1)"
    "set (terminated res1) \<subseteq> set (terminated res) \<union> pids_of alive"
    "set (failed res) \<subseteq> set (failed res1)"
    "fst ` set (failed res1) \<subseteq> fst ` set (failed res) \<union> pids_of alive"
    using force_kill_result [of os alive res tr] by (simp_all add: res1_def)
  have m1: "bucket_pids res \<subseteq> bucket_pids res1"
    using k by (auto simp add: bucket_pids_def)
  have u1: "bucket_pids res1 \<subseteq> bucket_pids res \<union> pids_of alive"
    using k by (auto simp add: bucket_pids_def)
  show ?thesis
  proof (cases r)
    case (Returned ga)
    obtain gone2 alive2 where ga: "ga = (gone2, alive2)" by (cases ga)
    have part: "set gone2 \<union> set alive2 = set alive"
      using assms Returned ga by (simp add: wait_procs_partitions_def r_def)
    then have part': "pids_of gone2 \<union> pids_of alive2 = pids_of alive"
      by (auto simp add: pids_of_def)
    define res2 where "res2 = record_killed gone2 res1"
    define out where "out = record_still_alive alive2 res2"
    have esc: "fst (escalate os alive (res, tr)) = out"
      using False fk Returned ga by (simp add: escalate_def r_def out_def res2_def)
    have rk: "terminated res2 = terminated res1" "failed res2 = failed res1"
      "set (killed res1) \<subseteq> set (killed res2)"
      "set (killed res2) \<subseteq> set (killed res1) \<union> pids_of gone2"
      "pids_of gone2 \<subseteq> set (killed res2) \<union> set (terminated res1)"
      using record_killed_result [of gone2 res1] by (simp_all add: res2_def)
    have rs: "terminated out = terminated res2" "killed out = killed res2"
      "fst ` set (failed out) = fst ` set (failed res2) \<union> pids_of alive2"
      using record_still_alive_result [of alive2 res2] by (simp_all add: out_def)
    have t: "set (terminated res) \<subseteq> set (terminated out)"
      using k(2) rk(1) rs(1) by simp
    have m: "bucket_pids res1 \<subseteq> bucket_pids out"
      unfolding bucket_pids_def using rk(1-3) rs by auto
    have u: "bucket_pids out \<subseteq> bucket_pids res1 \<union> pids_of alive"
      unfolding bucket_pids_def using rk(1,2,4) rs part' by auto
    have c: "pids_of alive \<subseteq> bucket_pids out"
      unfolding bucket_pids_def using rk(1,5) rs part' by auto
    show ?thesis unfolding esc using t m u c m1 u1 by blast
  next
    case (Raised x)
    define out where "out = fst (check_after_kill os alive (res1, tr1 @ [Wait_procs alive 3 r]))"
    have esc: "fst (escalate os alive (res, tr)) = out"
      using False fk Raised by (simp add: escalate_def r_def out_def)
    have ck: "terminated out = terminated res1"
      "bucket_pids out \<subseteq> bucket_pids res1 \<union> pids_of alive"
      "pids_of alive \<subseteq> bucket_pids out"
      "set (killed res1) \<subseteq> set (killed out)" "set (failed res1) \<subseteq> set (failed out)"
      using check_after_kill_result [of os alive res1 "tr1 @ [Wait_procs alive 3 r]"]
      by (simp_all add: out_def)
    have t: "set (terminated res) \<subseteq> set (terminated out)"
      using k(2) ck(1) by simp
    have m: "bucket_pids res1 \<subseteq> bucket_pids out"
      unfolding bucket_pids_def using ck(1,4,5) by auto
    show ?thesis unfolding esc using t m ck(2,3) m1 u1 by blast
  qed
qed

lemma build_all_procs_trace:
  "\<exists>evs. snd (build_all_procs os parent tr) = tr @ evs \<and> graceful_requests evs = []
      \<and> forced_kills evs = [] \<and> wait_timeouts evs = []"
proof -
  let ?e = "Children parent (children os parent tr)"
  obtain evs where e: "snd (resolve_children os (fst (enumerate_children os parent tr)) (tr @ [?e])) = (tr @ [?e]) @ evs"
    "graceful_requests evs = []" "forced_kills evs = []" "wait_timeouts evs = []"
    using resolve_children_trace by blast
  have "snd (build_all_procs os parent tr) = tr @ (?e # evs)"
    using e(1) by (simp add: build_all_procs_def enumerate_children_def Let_def split_beta)
  then show ?thesis
    using e by (intro exI [of _ "?e # evs"]) simp
qed

lemma resolve_children_subset:
  "set (fst (resolve_children os cs tr)) \<subseteq> set cs"
proof (induction cs arbitrary: tr)
  case Nil
  then show ?case by simp
next
  case (Cons c cs)
  from Cons.IH [of "tr @ [Process_init (pid c) (Process_new os (pid c) tr)]"]
  show ?case by (auto simp add: Let_def split_beta split: outcome.splits)
qed


lemma tree_handles_eq:
  "tree_handles os root_pid = descendant_handles os root_pid @ [Process root_pid]"
  by (simp add: descendant_handles_def tree_handles_def build_all_procs_def Let_def split_beta)

lemma descendant_handles_subset:
  "set (descendant_handles os root_pid) \<subseteq> set (discovered_children os root_pid)"
  using resolve_children_subset
  by (simp add: descendant_handles_def tree_handles_def discovered_children_def
      build_all_procs_def Let_def split_beta)


text \<open>The anatomy of a run whose root resolved.\<close>

lemma graceful_phase_trace:
  "graceful_requests (snd (graceful_phase os root_pid)) = tree_handles os root_pid"
  "forced_kills (snd (graceful_phase os root_pid)) = []"
  "wait_timeouts (snd (graceful_phase os root_pid)) = []"
proof -
  define tr0 where "tr0 = [Process_init root_pid (Returned ())]"
  define tr2 where "tr2 = snd (build_all_procs os (Process root_pid) tr0)"
  obtain e1 where e1: "tr2 = tr0 @ e1" "graceful_requests e1 = []" "forced_kills e1 = []"
    "wait_timeouts e1 = []"
    using build_all_procs_trace [of os "Process root_pid" tr0] unfolding tr2_def by blast
  obtain e2 where e2: "snd (graceful os (tree_handles os root_pid) (empty_result, tr2)) = tr2 @ e2"
    "graceful_requests e2 = tree_handles os root_pid" "forced_kills e2 = []" "wait_timeouts e2 = []"
    using graceful_trace [of os "tree_handles os root_pid" empty_result tr2] by blast
  have g: "snd (graceful_phase os root_pid) = tr0 @ e1 @ e2"
    using e1(1) e2(1) by (simp add: graceful_phase_def tr2_def tr0_def)
  show "graceful_requests (snd (graceful_phase os root_pid)) = tree_handles os root_pid"
    "forced_kills (snd (graceful_phase os root_pid)) = []"
    "wait_timeouts (snd (graceful_phase os root_pid)) = []"
    unfolding g using e1 e2 by (simp_all add: tr0_def)
qed

lemma graceful_phase_result:
  "terminated (fst (graceful_phase os root_pid)) = []"
  "killed (fst (graceful_phase os root_pid)) = []"
  "fst ` set (failed (fst (graceful_phase os root_pid))) \<subseteq> pids_of (tree_handles os root_pid)"
  using graceful_result [of os "tree_handles os root_pid" empty_result
      "snd (build_all_procs os (Process root_pid) [Process_init root_pid (Returned ())])"]
  by (simp_all add: graceful_phase_def empty_result_def)

lemma primary_wait_trace:
  "\<exists>post. snd (primary_wait os root_pid timeout) =
       snd (graceful_phase os root_pid)
         @ Wait_procs (tree_handles os root_pid) timeout (primary_wait_procs os root_pid timeout) # post
     \<and> graceful_requests post = [] \<and> forced_kills post = [] \<and> wait_timeouts post = []"
  using wait_for_termination_trace [of os "tree_handles os root_pid" timeout "snd (graceful_phase os root_pid)"]
  by (simp add: primary_wait_def primary_wait_procs_def)

lemma terminate_resolved_eq:
  "terminate_resolved os root_pid timeout [Process_init root_pid (Returned ())] =
     (case fst (primary_wait os root_pid timeout) of
        Raised e \<Rightarrow> (Raised e, snd (primary_wait os root_pid timeout))
      | Returned ga \<Rightarrow>
          (Returned (clean_lists (fst (escalate os (snd ga)
               (record_gone (fst ga) (fst (graceful_phase os root_pid)), snd (primary_wait os root_pid timeout))))),
           snd (escalate os (snd ga)
               (record_gone (fst ga) (fst (graceful_phase os root_pid)), snd (primary_wait os root_pid timeout)))))"
  by (simp add: terminate_resolved_def tree_handles_def graceful_phase_def primary_wait_def
      split_beta Let_def split: outcome.splits)

lemma terminate_process_tree_resolved:
  "Process_new os root_pid [] = Returned () \<Longrightarrow>
     terminate_process_tree os root_pid timeout =
       terminate_resolved os root_pid timeout [Process_init root_pid (Returned ())]"
  by (simp add: terminate_process_tree_def)

lemma resolved_run_returned:
  assumes "Process_new os root_pid [] = Returned ()"
    and "terminate_process_tree os root_pid timeout = (Returned res, tr)"
  obtains gone alive where
    "fst (primary_wait os root_pid timeout) = Returned (gone, alive)"
    "res = clean_lists (fst (escalate os alive
        (record_gone gone (fst (graceful_phase os root_pid)), snd (primary_wait os root_pid timeout))))"
    "tr = snd (escalate os alive
        (record_gone gone (fst (graceful_phase os root_pid)), snd (primary_wait os root_pid timeout)))"
proof (cases "fst (primary_wait os root_pid timeout)")
  case (Raised e)
  with assms show ?thesis
    by (simp add: terminate_process_tree_resolved terminate_resolved_eq)
next
  case (Returned ga)
  obtain gone alive where ga: "ga = (gone, alive)" by (cases ga)
  from assms Returned ga that [of gone alive] show ?thesis
    by (simp add: terminate_process_tree_resolved terminate_resolved_eq)
qed

section \<open>The claims about terminate_process_tree\<close>

lemmas run_defs = terminate_process_tree_def terminate_resolved_def build_all_procs_def
  enumerate_children_def wait_for_termination_def escalate_def record_gone_def
  record_still_alive_def clean_lists_def dict_fromkeys_def truthy_def getattr_pid_def
  empty_result_def Let_def

lemmas phase_defs = tree_handles_def descendant_handles_def discovered_children_def
  graceful_phase_def primary_wait_procs_def primary_wait_def

text \<open>The log of a run whose root resolved.\<close>

lemma resolved_run_trace:
  assumes "Process_new os root_pid [] = Returned ()"
  shows "\<exists>post. snd (terminate_process_tree os root_pid timeout) =
       snd (graceful_phase os root_pid)
         @ Wait_procs (tree_handles os root_pid) timeout (primary_wait_procs os root_pid timeout) # post
     \<and> graceful_requests post = []
     \<and> set (wait_timeouts post) \<subseteq> {3}
     \<and> length (wait_timeouts post) \<le> 1"
proof -
  obtain post where p: "snd (primary_wait os root_pid timeout) =
       snd (graceful_phase os root_pid)
         @ Wait_procs (tree_handles os root_pid) timeout (primary_wait_procs os root_pid timeout) # post"
    "graceful_requests post = []" "forced_kills post = []" "wait_timeouts post = []"
    using primary_wait_trace by blast
  show ?thesis
  proof (cases "fst (primary_wait os root_pid timeout)")
    case (Raised e)
    then have "snd (terminate_process_tree os root_pid timeout) = snd (primary_wait os root_pid timeout)"
      using assms by (simp add: terminate_process_tree_resolved terminate_resolved_eq)
    then show ?thesis using p by (intro exI [of _ post]) simp
  next
    case (Returned ga)
    define res2 where "res2 = record_gone (fst ga) (fst (graceful_phase os root_pid))"
    obtain evs where e: "snd (escalate os (snd ga) (res2, snd (primary_wait os root_pid timeout))) =
        snd (primary_wait os root_pid timeout) @ evs"
      "graceful_requests evs = []" "wait_timeouts evs = (if snd ga = [] then [] else [3])"
      using escalate_trace [of os "snd ga" res2 "snd (primary_wait os root_pid timeout)"] by blast
    have "snd (terminate_process_tree os root_pid timeout) = snd (primary_wait os root_pid timeout) @ evs"
      using assms Returned e(1) by (simp add: terminate_process_tree_resolved terminate_resolved_eq res2_def)
    then show ?thesis using p e(2,3) by (intro exI [of _ "post @ evs"]) simp
  qed
qed

lemma unresolved_run_trace:
  "Process_new os root_pid [] = Raised e \<Longrightarrow>
     snd (terminate_process_tree os root_pid timeout) = [Process_init root_pid (Raised e)]"
  by (cases e) (simp_all add: terminate_process_tree_def)

lemma pids_of_tree:
  "pids_of (tree_handles os root_pid) \<subseteq> insert (Some root_pid) (pids_of (discovered_children os root_pid))"
  using descendant_handles_subset [of os root_pid]
  by (auto simp add: tree_handles_eq pids_of_def)

lemma record_gone_result:
  "terminated (record_gone gone res) = terminated res @ map (\<lambda>p. Some (pid p)) gone"
  "killed (record_gone gone res) = killed res"
  "failed (record_gone gone res) = failed res"
  by (simp_all add: record_gone_def)

lemma primary_wait_subset:
  assumes "wait_procs_partitions os"
    and "fst (primary_wait os root_pid timeout) = Returned (gone, alive)"
  shows "set gone \<union> set alive \<subseteq> set (tree_handles os root_pid)"
  using wait_for_termination_subset [OF assms(1), of "tree_handles os root_pid" timeout
      "snd (graceful_phase os root_pid)" gone alive "snd (primary_wait os root_pid timeout)"] assms(2)
  by (simp add: primary_wait_def prod_eq_iff)

lemma primary_wait_cover:
  assumes "wait_procs_partitions os"
    and "primary_wait_procs os root_pid timeout = Returned ga"
    and "fst (primary_wait os root_pid timeout) = Returned (gone, alive)"
  shows "set gone \<union> set alive = set (tree_handles os root_pid)"
  using wait_for_termination_cover [OF assms(1), of "tree_handles os root_pid" timeout
      "snd (graceful_phase os root_pid)" ga gone alive "snd (primary_wait os root_pid timeout)"] assms(2,3)
  by (simp add: primary_wait_def primary_wait_procs_def prod_eq_iff)

lemma force_kill_vanished:
  "snd (force_kill os ps (res, tr)) = tr @ evs \<Longrightarrow> Kill p (Raised (NoSuchProcess m)) \<in> set evs
     \<Longrightarrow> Some (pid p) \<in> set (terminated (fst (force_kill os ps (res, tr))))"
proof (induction ps arbitrary: res tr evs)
  case Nil
  then show ?case by simp
next
  case (Cons q qs)
  define r where "r = kill os q tr"
  define res' where "res' = (case r of
           Returned _ \<Rightarrow> res
         | Raised e \<Rightarrow>
             (case e of
                NoSuchProcess _ \<Rightarrow> res\<lparr>terminated := terminated res @ [getattr_pid q]\<rparr>
              | _ \<Rightarrow> res\<lparr>failed := failed res @ [(getattr_pid q, ''kill error: '' @ str e)]\<rparr>))"
  have step: "force_kill os (q # qs) (res, tr) = force_kill os qs (res', tr @ [Kill q r])"
    by (simp add: Let_def res'_def r_def)
  obtain evs' where e: "snd (force_kill os qs (res', tr @ [Kill q r])) = (tr @ [Kill q r]) @ evs'"
    using force_kill_trace [of os qs res' "tr @ [Kill q r]"] by blast
  with Cons.prems(1) have evs: "evs = Kill q r # evs'"
    unfolding step by simp
  show ?case
  proof (cases "Kill p (Raised (NoSuchProcess m)) \<in> set evs'")
    case True
    from Cons.IH [OF e True] show ?thesis unfolding step .
  next
    case False
    with Cons.prems(2) evs have "p = q" "r = Raised (NoSuchProcess m)" by auto
    then have "Some (pid p) \<in> set (terminated res')"
      by (simp add: res'_def getattr_pid_def)
    then show ?thesis
      unfolding step using force_kill_result [of os qs res' "tr @ [Kill q r]"] by blast
  qed
qed

lemma record_killed_skips_terminated:
  "x \<in> set (terminated res) \<Longrightarrow> x \<notin> set (killed res) \<Longrightarrow> x \<notin> set (killed (record_killed ps res))"
proof (induction ps arbitrary: res)
  case Nil
  then show ?case by simp
next
  case (Cons p ps)
  show ?case
  proof (cases "Some (pid p) \<in> set (terminated res)")
    case True
    with Cons.IH [of res] Cons.prems show ?thesis by simp
  next
    case False
    with Cons.prems have "x \<noteq> Some (pid p)" by auto
    with Cons.IH [of "res\<lparr>killed := killed res @ [Some (pid p)]\<rparr>"] Cons.prems False
    show ?thesis by simp
  qed
qed

lemma check_after_kill_skips_terminated:
  "x \<in> set (terminated res) \<Longrightarrow> x \<notin> set (killed res)
     \<Longrightarrow> x \<notin> set (killed (fst (check_after_kill os ps (res, tr))))"
proof (induction ps arbitrary: res tr)
  case Nil
  then show ?case by simp
next
  case (Cons p ps)
  define r where "r = is_running os p tr"
  define res' where "res' = (case r of
           Returned b \<Rightarrow>
             (if \<not> b
              then (if Some (pid p) \<notin> set (terminated res)
                    then res\<lparr>killed := killed res @ [Some (pid p)]\<rparr> else res)
              else res\<lparr>failed := failed res @ [(getattr_pid p, ''still alive after kill'')]\<rparr>)
         | Raised _ \<Rightarrow> res\<lparr>failed := failed res @ [(getattr_pid p, ''unknown state'')]\<rparr>)"
  have step: "check_after_kill os (p # ps) (res, tr) = check_after_kill os ps (res', tr @ [Is_running p r])"
    by (simp add: Let_def res'_def r_def)
  have "x \<in> set (terminated res')" "x \<notin> set (killed res')"
    using Cons.prems by (auto simp add: res'_def split: outcome.splits)
  from Cons.IH [OF this] show ?case unfolding step .
qed

lemma escalate_vanished:
  assumes "snd (escalate os alive (res, tr)) = tr @ evs"
    and "Kill p (Raised (NoSuchProcess m)) \<in> set evs"
  shows "Some (pid p) \<in> set (terminated (fst (escalate os alive (res, tr))))
     \<and> (Some (pid p) \<notin> set (killed res)
          \<longrightarrow> Some (pid p) \<notin> set (killed (fst (escalate os alive (res, tr)))))"
proof (cases "alive = []")
  case True
  with assms show ?thesis by (simp add: escalate_def)
next
  case False
  define res1 where "res1 = fst (force_kill os alive (res, tr))"
  obtain e1 where e1: "snd (force_kill os alive (res, tr)) = tr @ e1"
    using force_kill_trace [of os alive res tr] by blast
  define r where "r = wait_procs os alive 3 (tr @ e1)"
  have fk: "force_kill os alive (res, tr) = (res1, tr @ e1)"
    using e1 by (simp add: res1_def prod_eq_iff)
  have k1: "killed res1 = killed res"
    using force_kill_result [of os alive res tr] by (simp add: res1_def)
  have in_e1: "Some (pid p) \<in> set (terminated res1)" if "Kill p (Raised (NoSuchProcess m)) \<in> set e1"
    using force_kill_vanished [OF e1 that] by (simp add: res1_def)
  show ?thesis
  proof (cases r)
    case (Returned ga)
    obtain gone2 alive2 where ga: "ga = (gone2, alive2)" by (cases ga)
    have esc: "escalate os alive (res, tr) =
        (record_still_alive alive2 (record_killed gone2 res1), tr @ e1 @ [Wait_procs alive 3 r])"
      using False fk Returned ga by (simp add: escalate_def r_def)
    with assms have "Kill p (Raised (NoSuchProcess m)) \<in> set e1" by auto
    then have t: "Some (pid p) \<in> set (terminated res1)" by (rule in_e1)
    have "terminated (record_still_alive alive2 (record_killed gone2 res1)) = terminated res1"
      "killed (record_still_alive alive2 (record_killed gone2 res1)) = killed (record_killed gone2 res1)"
      using record_still_alive_result [of alive2 "record_killed gone2 res1"]
        record_killed_result [of gone2 res1] by simp_all
    then show ?thesis
      unfolding esc using t k1 record_killed_skips_terminated [OF t, of gone2] by simp
  next
    case (Raised x)
    obtain e2 where e2: "snd (check_after_kill os alive (res1, (tr @ e1) @ [Wait_procs alive 3 r])) =
        ((tr @ e1) @ [Wait_procs alive 3 r]) @ e2" "forced_kills e2 = []"
      using check_after_kill_trace [of os alive res1 "(tr @ e1) @ [Wait_procs alive 3 r]"] by blast
    have esc: "escalate os alive (res, tr) = check_after_kill os alive (res1, (tr @ e1) @ [Wait_procs alive 3 r])"
      using False fk Raised by (simp add: escalate_def r_def)
    have "evs = e1 @ Wait_procs alive 3 r # e2"
      using assms(1) e2(1) unfolding esc by simp
    moreover have "Kill p (Raised (NoSuchProcess m)) \<notin> set e2"
      using kill_in_forced_kills [of p _ e2] e2(2) by auto
    ultimately have "Kill p (Raised (NoSuchProcess m)) \<in> set e1"
      using assms(2) by auto
    then have t: "Some (pid p) \<in> set (terminated res1)" by (rule in_e1)
    have "terminated (fst (check_after_kill os alive (res1, (tr @ e1) @ [Wait_procs alive 3 r]))) = terminated res1"
      using check_after_kill_result [of os alive res1 "(tr @ e1) @ [Wait_procs alive 3 r]"] by simp
    then show ?thesis
      unfolding esc using t k1
        check_after_kill_skips_terminated [OF t, of os alive "(tr @ e1) @ [Wait_procs alive 3 r]"]
      by simp
  qed
qed

text \<open>Where an entry of a bucket comes from.\<close>

lemma trace_grows:
  "set tr \<subseteq> set (snd (graceful os ps (res, tr)))"
  "set tr \<subseteq> set (snd (force_kill os ps (res, tr)))"
  "set tr \<subseteq> set (snd (check_after_kill os ps (res, tr)))"
  "set tr \<subseteq> set (snd (escalate os ps (res, tr)))"
proof -
  show "set tr \<subseteq> set (snd (graceful os ps (res, tr)))"
    using graceful_trace [of os ps res tr] by auto
  show "set tr \<subseteq> set (snd (force_kill os ps (res, tr)))"
    using force_kill_trace [of os ps res tr] by auto
  show "set tr \<subseteq> set (snd (check_after_kill os ps (res, tr)))"
    using check_after_kill_trace [of os ps res tr] by auto
  show "set tr \<subseteq> set (snd (escalate os ps (res, tr)))"
    using escalate_trace [of os ps res tr] by auto
qed

lemma not_delivered:
  "Terminate p (Raised e) \<in> set tr \<Longrightarrow> \<not> signals_delivered tr (pid p)"
  "Kill p (Raised e) \<in> set tr \<Longrightarrow> \<not> signals_delivered tr (pid p)"
  by (force simp add: signals_delivered_def)+

lemma graceful_failed_source:
  "x \<in> fst ` set (failed (fst (graceful os ps (res, tr)))) \<Longrightarrow>
     x \<in> fst ` set (failed res)
     \<or> (\<exists>p e. x = Some (pid p) \<and> Terminate p (Raised e) \<in> set (snd (graceful os ps (res, tr))))"
proof (induction ps arbitrary: res tr)
  case Nil
  then show ?case by simp
next
  case (Cons p ps)
  define r where "r = terminate os p tr"
  define res' where "res' = (case r of
           Returned _ \<Rightarrow> res
         | Raised e \<Rightarrow> res\<lparr>failed := failed res @ [(getattr_pid p, ''terminate error: '' @ str e)]\<rparr>)"
  have step: "graceful os (p # ps) (res, tr) = graceful os ps (res', tr @ [Terminate p r])"
    by (simp add: Let_def res'_def r_def)
  have here: "Terminate p r \<in> set (snd (graceful os ps (res', tr @ [Terminate p r])))"
    using trace_grows(1) [of "tr @ [Terminate p r]" os ps res'] by auto
  from Cons.prems have "x \<in> fst ` set (failed (fst (graceful os ps (res', tr @ [Terminate p r]))))"
    unfolding step .
  from Cons.IH [OF this] show ?case
  proof
    assume a: "x \<in> fst ` set (failed res')"
    show ?thesis
    proof (cases r)
      case (Returned u)
      with a show ?thesis by (simp add: res'_def)
    next
      case (Raised e)
      with a have "x \<in> fst ` set (failed res) \<or> x = Some (pid p)"
        by (auto simp add: res'_def getattr_pid_def)
      then show ?thesis
        unfolding step using here Raised by auto
    qed
  next
    assume "\<exists>q e. x = Some (pid q) \<and> Terminate q (Raised e) \<in> set (snd (graceful os ps (res', tr @ [Terminate p r])))"
    then show ?thesis unfolding step by blast
  qed
qed

lemma force_kill_source:
  "(x \<in> set (terminated (fst (force_kill os ps (res, tr)))) \<longrightarrow>
      x \<in> set (terminated res)
      \<or> (\<exists>p e. x = Some (pid p) \<and> Kill p (Raised e) \<in> set (snd (force_kill os ps (res, tr)))))
   \<and> (x \<in> fst ` set (failed (fst (force_kill os ps (res, tr)))) \<longrightarrow>
      x \<in> fst ` set (failed res)
      \<or> (\<exists>p e. x = Some (pid p) \<and> Kill p (Raised e) \<in> set (snd (force_kill os ps (res, tr)))))"
proof (induction ps arbitrary: res tr)
  case Nil
  then show ?case by simp
next
  case (Cons p ps)
  define r where "r = kill os p tr"
  define res' where "res' = (case r of
           Returned _ \<Rightarrow> res
         | Raised e \<Rightarrow>
             (case e of
                NoSuchProcess _ \<Rightarrow> res\<lparr>terminated := terminated res @ [getattr_pid p]\<rparr>
              | _ \<Rightarrow> res\<lparr>failed := failed res @ [(getattr_pid p, ''kill error: '' @ str e)]\<rparr>))"
  define out where "out = fst (force_kill os ps (res', tr @ [Kill p r]))"
  define tr' where "tr' = snd (force_kill os ps (res', tr @ [Kill p r]))"
  have step: "fst (force_kill os (p # ps) (res, tr)) = out" "snd (force_kill os (p # ps) (res, tr)) = tr'"
    by (simp_all add: Let_def res'_def r_def out_def tr'_def)
  have here: "Kill p r \<in> set tr'"
    using trace_grows(2) [of "tr @ [Kill p r]" os ps res'] by (auto simp add: tr'_def)
  have ih: "x \<in> set (terminated out) \<longrightarrow>
      x \<in> set (terminated res') \<or> (\<exists>q e. x = Some (pid q) \<and> Kill q (Raised e) \<in> set tr')"
    "x \<in> fst ` set (failed out) \<longrightarrow>
      x \<in> fst ` set (failed res') \<or> (\<exists>q e. x = Some (pid q) \<and> Kill q (Raised e) \<in> set tr')"
    using Cons.IH [of res' "tr @ [Kill p r]"] by (simp_all add: out_def tr'_def)
  have t: "x \<in> set (terminated res') \<longrightarrow>
      x \<in> set (terminated res) \<or> (\<exists>q e. x = Some (pid q) \<and> Kill q (Raised e) \<in> set tr')"
  proof (cases r)
    case (Returned u)
    then show ?thesis by (simp add: res'_def)
  next
    case (Raised e)
    have "x \<in> set (terminated res') \<longrightarrow> x \<in> set (terminated res) \<or> x = Some (pid p)"
      using Raised by (cases e) (auto simp add: res'_def getattr_pid_def)
    then show ?thesis using here Raised by auto
  qed
  have f: "x \<in> fst ` set (failed res') \<longrightarrow>
      x \<in> fst ` set (failed res) \<or> (\<exists>q e. x = Some (pid q) \<and> Kill q (Raised e) \<in> set tr')"
  proof (cases r)
    case (Returned u)
    then show ?thesis by (simp add: res'_def)
  next
    case (Raised e)
    have "x \<in> fst ` set (failed res') \<longrightarrow> x \<in> fst ` set (failed res) \<or> x = Some (pid p)"
      using Raised by (cases e) (auto simp add: res'_def getattr_pid_def)
    then show ?thesis using here Raised by auto
  qed
  show ?case unfolding step using ih t f by blast
qed

lemma check_after_kill_bounds:
  "set (killed (fst (check_after_kill os ps (res, tr)))) \<subseteq> set (killed res) \<union> pids_of ps
   \<and> fst ` set (failed (fst (check_after_kill os ps (res, tr)))) \<subseteq> fst ` set (failed res) \<union> pids_of ps"
proof (induction ps arbitrary: res tr)
  case Nil
  show ?case by simp
next
  case (Cons p ps)
  define r where "r = is_running os p tr"
  define res' where "res' = (case r of
           Returned b \<Rightarrow>
             (if \<not> b
              then (if Some (pid p) \<notin> set (terminated res)
                    then res\<lparr>killed := killed res @ [Some (pid p)]\<rparr> else res)
              else res\<lparr>failed := failed res @ [(getattr_pid p, ''still alive after kill'')]\<rparr>)
         | Raised _ \<Rightarrow> res\<lparr>failed := failed res @ [(getattr_pid p, ''unknown state'')]\<rparr>)"
  define out where "out = fst (check_after_kill os ps (res', tr @ [Is_running p r]))"
  have step: "fst (check_after_kill os (p # ps) (res, tr)) = out"
    by (simp add: Let_def res'_def r_def out_def)
  have k: "set (killed res') \<subseteq> set (killed res) \<union> {Some (pid p)}"
    by (auto simp add: res'_def split: outcome.splits)
  have f: "fst ` set (failed res') \<subseteq> fst ` set (failed res) \<union> {Some (pid p)}"
    by (auto simp add: res'_def getattr_pid_def split: outcome.splits)
  have e: "pids_of (p # ps) = insert (Some (pid p)) (pids_of ps)"
    by (simp add: pids_of_def)
  have ih: "set (killed out) \<subseteq> set (killed res') \<union> pids_of ps"
    "fst ` set (failed out) \<subseteq> fst ` set (failed res') \<union> pids_of ps"
    using Cons.IH [of res' "tr @ [Is_running p r]"] by (simp_all add: out_def)
  have 1: "set (killed out) \<subseteq> set (killed res) \<union> insert (Some (pid p)) (pids_of ps)"
    using ih(1) k by blast
  have 2: "fst ` set (failed out) \<subseteq> fst ` set (failed res) \<union> insert (Some (pid p)) (pids_of ps)"
    using ih(2) f by blast
  show ?case unfolding step e using 1 2 by simp
qed

lemma check_after_kill_exclusive:
  "distinct ps \<Longrightarrow> x \<in> set (killed (fst (check_after_kill os ps (res, tr))))
     \<Longrightarrow> x \<in> fst ` set (failed (fst (check_after_kill os ps (res, tr))))
     \<Longrightarrow> x \<in> set (killed res) \<or> x \<in> fst ` set (failed res)"
proof (induction ps arbitrary: res tr)
  case Nil
  then show ?case by simp
next
  case (Cons p ps)
  define r where "r = is_running os p tr"
  define res' where "res' = (case r of
           Returned b \<Rightarrow>
             (if \<not> b
              then (if Some (pid p) \<notin> set (terminated res)
                    then res\<lparr>killed := killed res @ [Some (pid p)]\<rparr> else res)
              else res\<lparr>failed := failed res @ [(getattr_pid p, ''still alive after kill'')]\<rparr>)
         | Raised _ \<Rightarrow> res\<lparr>failed := failed res @ [(getattr_pid p, ''unknown state'')]\<rparr>)"
  define out where "out = fst (check_after_kill os ps (res', tr @ [Is_running p r]))"
  have step: "fst (check_after_kill os (p # ps) (res, tr)) = out"
    by (simp add: Let_def res'_def r_def out_def)
  have notin: "Some (pid p) \<notin> pids_of ps"
    using Cons.prems(1) by (cases p) (auto simp add: pids_of_def process.expand)
  have kb: "set (killed out) \<subseteq> set (killed res') \<union> pids_of ps"
    and fb: "fst ` set (failed out) \<subseteq> fst ` set (failed res') \<union> pids_of ps"
    using check_after_kill_bounds [of os ps res' "tr @ [Is_running p r]"] by (simp_all add: out_def)
  have one: "(killed res' = killed res \<and> fst ` set (failed res') \<subseteq> fst ` set (failed res) \<union> {Some (pid p)})
      \<or> (failed res' = failed res \<and> set (killed res') \<subseteq> set (killed res) \<union> {Some (pid p)})"
    by (auto simp add: res'_def getattr_pid_def split: outcome.splits)
  have xk: "x \<in> set (killed out)" and xf: "x \<in> fst ` set (failed out)"
    using Cons.prems(2,3) unfolding step by simp_all
  have "x \<in> set (killed res') \<or> x \<in> fst ` set (failed res')"
    using Cons.IH [of res' "tr @ [Is_running p r]"] Cons.prems(1) xk xf by (simp add: out_def)
  then show ?case
  proof
    assume a: "x \<in> set (killed res')"
    from one show ?thesis
    proof
      assume "killed res' = killed res \<and> fst ` set (failed res') \<subseteq> fst ` set (failed res) \<union> {Some (pid p)}"
      with a show ?thesis by simp
    next
      assume b: "failed res' = failed res \<and> set (killed res') \<subseteq> set (killed res) \<union> {Some (pid p)}"
      show ?thesis
      proof (cases "x = Some (pid p)")
        case True
        with xf fb notin b show ?thesis by auto
      next
        case False
        with a b show ?thesis by auto
      qed
    qed
  next
    assume a: "x \<in> fst ` set (failed res')"
    from one show ?thesis
    proof
      assume b: "killed res' = killed res \<and> fst ` set (failed res') \<subseteq> fst ` set (failed res) \<union> {Some (pid p)}"
      show ?thesis
      proof (cases "x = Some (pid p)")
        case True
        with xk kb notin b show ?thesis by auto
      next
        case False
        with a b show ?thesis by auto
      qed
    next
      assume "failed res' = failed res \<and> set (killed res') \<subseteq> set (killed res) \<union> {Some (pid p)}"
      with a show ?thesis by simp
    qed
  qed
qed

lemma running_procs_distinct:
  "distinct ps \<Longrightarrow> running_procs os ps tr = (Returned qs, tr') \<Longrightarrow> distinct qs"
proof (induction ps arbitrary: tr qs tr')
  case Nil
  then show ?case by simp
next
  case (Cons p ps)
  from Cons.prems(2) obtain b qs' where
    r: "running_procs os ps (tr @ [Is_running p (is_running os p tr)]) = (Returned qs', tr')"
    and q: "qs = (if b then p # qs' else qs')"
    by (auto simp add: Let_def split: prod.splits outcome.splits)
  from Cons.prems(1) have d: "distinct ps" "p \<notin> set ps" by simp_all
  from Cons.IH [OF d(1) r] running_procs_subset [OF r] d(2) q show ?case by auto
qed

lemma pids_of_disjoint:
  "set a \<inter> set b = {} \<Longrightarrow> pids_of a \<inter> pids_of b = {}"
proof -
  have "\<And>p q. pid p = pid q \<Longrightarrow> p = q"
    by (rule process.expand)
  then show "set a \<inter> set b = {} \<Longrightarrow> pids_of a \<inter> pids_of b = {}"
    by (fastforce simp add: pids_of_def)
qed

lemma wait_in_trace_not_returned:
  "Wait_procs ps t (Raised e) \<in> set tr \<Longrightarrow> \<not> waits_returned tr"
  by (force simp add: waits_returned_def)

lemma wait_for_termination_disjoint:
  assumes "wait_procs_disjoint os"
    and "wait_for_termination os ps timeout tr = (Returned (gone, alive), tr')"
  shows "set gone \<inter> set alive = {}" and "distinct ps \<longrightarrow> distinct alive"
proof -
  show "set gone \<inter> set alive = {}"
  proof (cases "wait_procs os ps timeout tr")
    case (Returned ga)
    with assms(2) have "wait_procs os ps timeout tr = Returned (gone, alive)"
      by (cases ga) (simp add: wait_for_termination_def Let_def)
    with assms(1) show ?thesis by (simp add: wait_procs_disjoint_def)
  next
    case (Raised e)
    with assms(2) have "gone = []"
      by (auto simp add: wait_for_termination_def Let_def split: prod.splits outcome.splits)
    then show ?thesis by simp
  qed
  show "distinct ps \<longrightarrow> distinct alive"
  proof (cases "wait_procs os ps timeout tr")
    case (Returned ga)
    with assms(2) have "wait_procs os ps timeout tr = Returned (gone, alive)"
      by (cases ga) (simp add: wait_for_termination_def Let_def)
    with assms(1) show ?thesis by (simp add: wait_procs_disjoint_def)
  next
    case (Raised e)
    with assms(2) obtain tr2 where
      "running_procs os ps (tr @ [Wait_procs ps timeout (Raised e)]) = (Returned alive, tr2)"
      by (auto simp add: wait_for_termination_def Let_def split: prod.splits outcome.splits)
    then show ?thesis using running_procs_distinct by blast
  qed
qed

text \<open>The escalation phase: where its entries come from, and that it puts no process
  into both killed and failed.\<close>

lemma escalate_sources:
  fixes os :: psutil and alive :: "process list" and res :: result and tr :: "event list"
    and x :: "int option"
  assumes "wait_procs_partitions os"
  defines "out \<equiv> fst (escalate os alive (res, tr))"
    and "tr' \<equiv> snd (escalate os alive (res, tr))"
  shows "x \<in> set (terminated out) \<longrightarrow>
      x \<in> set (terminated res) \<or> (\<exists>p e. x = Some (pid p) \<and> Kill p (Raised e) \<in> set tr')"
    and "x \<in> fst ` set (failed out) \<longrightarrow>
      x \<in> fst ` set (failed res) \<or> x \<in> pids_of alive
      \<or> (\<exists>p e. x = Some (pid p) \<and> Kill p (Raised e) \<in> set tr')"
    and "wait_procs_disjoint os \<longrightarrow> distinct alive \<or> waits_returned tr' \<longrightarrow>
      x \<in> set (killed out) \<longrightarrow> x \<in> fst ` set (failed out) \<longrightarrow>
      x \<in> set (killed res) \<or> x \<in> fst ` set (failed res)
      \<or> (\<exists>p e. x = Some (pid p) \<and> Kill p (Raised e) \<in> set tr')"
proof -
  let ?raised = "\<exists>p e. x = Some (pid p) \<and> Kill p (Raised e) \<in> set tr'"
  have all: "(x \<in> set (terminated out) \<longrightarrow> x \<in> set (terminated res) \<or> ?raised)
    \<and> (x \<in> fst ` set (failed out) \<longrightarrow> x \<in> fst ` set (failed res) \<or> x \<in> pids_of alive \<or> ?raised)
    \<and> (wait_procs_disjoint os \<longrightarrow> distinct alive \<or> waits_returned tr' \<longrightarrow>
      x \<in> set (killed out) \<longrightarrow> x \<in> fst ` set (failed out) \<longrightarrow>
      x \<in> set (killed res) \<or> x \<in> fst ` set (failed res) \<or> ?raised)"
  proof (cases "alive = []")
    case True
    then show ?thesis by (simp add: out_def tr'_def escalate_def)
  next
    case False
    define res1 where "res1 = fst (force_kill os alive (res, tr))"
    define tr1 where "tr1 = snd (force_kill os alive (res, tr))"
    define r where "r = wait_procs os alive 3 tr1"
    have fk: "force_kill os alive (res, tr) = (res1, tr1)"
      by (simp add: res1_def tr1_def)
    have k1: "killed res1 = killed res"
      using force_kill_result [of os alive res tr] by (simp add: res1_def)
    have src: "x \<in> set (terminated res1) \<longrightarrow>
        x \<in> set (terminated res) \<or> (\<exists>p e. x = Some (pid p) \<and> Kill p (Raised e) \<in> set tr1)"
      "x \<in> fst ` set (failed res1) \<longrightarrow>
        x \<in> fst ` set (failed res) \<or> (\<exists>p e. x = Some (pid p) \<and> Kill p (Raised e) \<in> set tr1)"
      using force_kill_source [of x os alive res tr] by (simp_all add: res1_def tr1_def)
    show ?thesis
    proof (cases r)
      case (Returned ga)
      obtain gone2 alive2 where ga: "ga = (gone2, alive2)" by (cases ga)
      define res2 where "res2 = record_killed gone2 res1"
      have esc: "out = record_still_alive alive2 res2" "tr' = tr1 @ [Wait_procs alive 3 r]"
        using False fk Returned ga by (simp_all add: out_def tr'_def escalate_def r_def res2_def)
      have part: "set gone2 \<union> set alive2 = set alive"
        using assms(1) Returned ga by (simp add: wait_procs_partitions_def r_def)
      have sub: "pids_of alive2 \<subseteq> pids_of alive" "pids_of gone2 \<subseteq> pids_of alive"
        using part by (auto simp add: pids_of_def)
      have rk: "terminated res2 = terminated res1" "failed res2 = failed res1"
        "set (killed res2) \<subseteq> set (killed res1) \<union> pids_of gone2"
        using record_killed_result [of gone2 res1] by (simp_all add: res2_def)
      have rs: "terminated out = terminated res2" "killed out = killed res2"
        "fst ` set (failed out) = fst ` set (failed res2) \<union> pids_of alive2"
        using record_still_alive_result [of alive2 res2] by (simp_all add: esc(1))
      have in1: "set tr1 \<subseteq> set tr'" by (auto simp add: esc(2))
      have a: "x \<in> set (terminated out) \<longrightarrow> x \<in> set (terminated res) \<or> ?raised"
        using src(1) rk(1) rs(1) in1 by auto
      have b: "x \<in> fst ` set (failed out) \<longrightarrow> x \<in> fst ` set (failed res) \<or> x \<in> pids_of alive \<or> ?raised"
        using src(2) rk(2) rs(3) sub(1) in1 by auto
      have c: "x \<in> set (killed res) \<or> x \<in> fst ` set (failed res) \<or> ?raised"
        if d: "wait_procs_disjoint os" and xk: "x \<in> set (killed out)" and xf: "x \<in> fst ` set (failed out)"
      proof -
        have "set gone2 \<inter> set alive2 = {}"
          using d Returned ga by (simp add: wait_procs_disjoint_def r_def)
        then have dis: "pids_of gone2 \<inter> pids_of alive2 = {}" by (rule pids_of_disjoint)
        from xk have "x \<in> set (killed res) \<or> x \<in> pids_of gone2"
          using rs(2) rk(3) k1 by auto
        moreover from xf have "x \<in> fst ` set (failed res1) \<or> x \<in> pids_of alive2"
          using rs(3) rk(2) by auto
        ultimately show ?thesis
          using dis src(2) in1 by blast
      qed
      from a b c show ?thesis by blast
    next
      case (Raised e)
      define tr2 where "tr2 = tr1 @ [Wait_procs alive 3 r]"
      have esc: "out = fst (check_after_kill os alive (res1, tr2))"
        "tr' = snd (check_after_kill os alive (res1, tr2))"
        using False fk Raised by (simp_all add: out_def tr'_def escalate_def r_def tr2_def)
      have in1: "set tr1 \<subseteq> set tr'" and inw: "Wait_procs alive 3 (Raised e) \<in> set tr'"
        using trace_grows(3) [of tr2 os alive res1] Raised by (auto simp add: esc(2) tr2_def)
      have ck: "terminated out = terminated res1"
        using check_after_kill_result [of os alive res1 tr2] by (simp add: esc(1))
      have cb: "set (killed out) \<subseteq> set (killed res1) \<union> pids_of alive"
        "fst ` set (failed out) \<subseteq> fst ` set (failed res1) \<union> pids_of alive"
        using check_after_kill_bounds [of os alive res1 tr2] by (simp_all add: esc(1))
      have a: "x \<in> set (terminated out) \<longrightarrow> x \<in> set (terminated res) \<or> ?raised"
        using src(1) ck in1 by auto
      have b: "x \<in> fst ` set (failed out) \<longrightarrow> x \<in> fst ` set (failed res) \<or> x \<in> pids_of alive \<or> ?raised"
        using src(2) cb(2) in1 by auto
      have c: "x \<in> set (killed res) \<or> x \<in> fst ` set (failed res) \<or> ?raised"
        if d: "distinct alive \<or> waits_returned tr'" and xk: "x \<in> set (killed out)"
          and xf: "x \<in> fst ` set (failed out)"
      proof -
        from d inw have "distinct alive"
          using wait_in_trace_not_returned by blast
        from check_after_kill_exclusive [OF this, of x os res1 tr2] xk xf
        have "x \<in> set (killed res1) \<or> x \<in> fst ` set (failed res1)"
          by (simp add: esc(1))
        then show ?thesis
        proof
          assume "x \<in> set (killed res1)"
          then show ?thesis using k1 by simp
        next
          assume "x \<in> fst ` set (failed res1)"
          with src(2) have "x \<in> fst ` set (failed res)
              \<or> (\<exists>p e. x = Some (pid p) \<and> Kill p (Raised e) \<in> set tr1)" by simp
          then show ?thesis using in1 by auto
        qed
      qed
      from a b c show ?thesis by blast
    qed
  qed
  from all show "x \<in> set (terminated out) \<longrightarrow>
      x \<in> set (terminated res) \<or> (\<exists>p e. x = Some (pid p) \<and> Kill p (Raised e) \<in> set tr')"
    by blast
  from all show "x \<in> fst ` set (failed out) \<longrightarrow>
      x \<in> fst ` set (failed res) \<or> x \<in> pids_of alive
      \<or> (\<exists>p e. x = Some (pid p) \<and> Kill p (Raised e) \<in> set tr')"
    by blast
  from all show "wait_procs_disjoint os \<longrightarrow> distinct alive \<or> waits_returned tr' \<longrightarrow>
      x \<in> set (killed out) \<longrightarrow> x \<in> fst ` set (failed out) \<longrightarrow>
      x \<in> set (killed res) \<or> x \<in> fst ` set (failed res)
      \<or> (\<exists>p e. x = Some (pid p) \<and> Kill p (Raised e) \<in> set tr')"
    by blast
qed

text \<open>The buckets of a returned outcome: the parts that hold of every pid.\<close>

lemma outcome_buckets_basic:
  assumes "wait_procs_partitions os"
    and "terminate_process_tree os root_pid timeout = (Returned res, tr)"
  shows "set (terminated res) \<inter> set (killed res) = {}
     \<and> bucket_pids res \<subseteq> insert (Some root_pid) (pids_of (discovered_children os root_pid))
     \<and> (Process_new os root_pid [] = Returned ()
          \<and> (\<exists>ga. primary_wait_procs os root_pid timeout = Returned ga)
        \<longrightarrow> (\<forall>p \<in> set (tree_handles os root_pid). pid p \<noteq> 0 \<longrightarrow> Some (pid p) \<in> bucket_pids res))"
proof (cases "Process_new os root_pid []")
  case (Raised e)
  with assms(2) show ?thesis
    by (cases e) (auto simp add: terminate_process_tree_def empty_result_def bucket_pids_def)
next
  case (Returned u)
  then have h: "Process_new os root_pid [] = Returned ()" by simp
  obtain gone alive where w: "fst (primary_wait os root_pid timeout) = Returned (gone, alive)"
    and r: "res = clean_lists (fst (escalate os alive
        (record_gone gone (fst (graceful_phase os root_pid)), snd (primary_wait os root_pid timeout))))"
    using resolved_run_returned [OF h assms(2)] by metis
  define res1 where "res1 = fst (graceful_phase os root_pid)"
  define res2 where "res2 = record_gone gone res1"
  define res3 where "res3 = fst (escalate os alive (res2, snd (primary_wait os root_pid timeout)))"
  have r': "res = clean_lists res3"
    by (simp add: r res3_def res2_def res1_def)
  have sub: "set gone \<union> set alive \<subseteq> set (tree_handles os root_pid)"
    using primary_wait_subset [OF assms(1) w] .
  have b1: "bucket_pids res1 \<subseteq> pids_of (tree_handles os root_pid)"
    using graceful_phase_result [of os root_pid] by (simp add: bucket_pids_def res1_def)
  have b2: "bucket_pids res2 = bucket_pids res1 \<union> pids_of gone"
    by (auto simp add: bucket_pids_def res2_def record_gone_result pids_of_def)
  have e: "bucket_pids res2 \<subseteq> bucket_pids res3"
    "bucket_pids res3 \<subseteq> bucket_pids res2 \<union> pids_of alive"
    "pids_of alive \<subseteq> bucket_pids res3"
    using escalate_result [OF assms(1), of res2 alive "snd (primary_wait os root_pid timeout)"]
    by (simp_all add: res3_def)
  have g: "pids_of gone \<subseteq> pids_of (tree_handles os root_pid)"
    "pids_of alive \<subseteq> pids_of (tree_handles os root_pid)"
    using sub by (auto simp add: pids_of_def)
  have 1: "set (terminated res) \<inter> set (killed res) = {}"
    unfolding r' by (auto simp add: clean_terminated clean_killed)
  have "bucket_pids res \<subseteq> pids_of (tree_handles os root_pid)"
    unfolding r' using clean_bucket_subset [of res3] e(2) b2 b1 g by blast
  then have 2: "bucket_pids res \<subseteq> insert (Some root_pid) (pids_of (discovered_children os root_pid))"
    using pids_of_tree [of os root_pid] by blast
  have 3: "Some (pid p) \<in> bucket_pids res"
    if c: "primary_wait_procs os root_pid timeout = Returned ga"
      and p: "p \<in> set (tree_handles os root_pid)" "pid p \<noteq> 0" for ga p
  proof -
    have "set gone \<union> set alive = set (tree_handles os root_pid)"
      using primary_wait_cover [OF assms(1) c w] .
    with p(1) have "Some (pid p) \<in> pids_of gone \<union> pids_of alive"
      by (auto simp add: pids_of_def)
    then have "Some (pid p) \<in> bucket_pids res3"
      using e(1,3) b2 by blast
    moreover have "truthy (Some (pid p))"
      using p(2) by (simp add: truthy_def)
    ultimately show ?thesis
      unfolding r' by (rule clean_bucket_keeps [rotated])
  qed
  from 1 2 3 show ?thesis by blast
qed

lemma resolved_at_most_one:
  assumes p: "wait_procs_partitions os" and d: "wait_procs_disjoint os"
    and h: "Process_new os root_pid [] = Returned ()"
    and run: "terminate_process_tree os root_pid timeout = (Returned res, tr)"
    and c: "distinct (tree_handles os root_pid) \<or> waits_returned tr"
    and q: "signals_delivered tr q"
  shows "buckets_holding res (Some q) \<le> 1"
proof -
  obtain gone alive where w: "fst (primary_wait os root_pid timeout) = Returned (gone, alive)"
    and r: "res = clean_lists (fst (escalate os alive
        (record_gone gone (fst (graceful_phase os root_pid)), snd (primary_wait os root_pid timeout))))"
    and t: "tr = snd (escalate os alive
        (record_gone gone (fst (graceful_phase os root_pid)), snd (primary_wait os root_pid timeout)))"
    using resolved_run_returned [OF h run] by metis
  define x where "x = Some q"
  define res1 where "res1 = fst (graceful_phase os root_pid)"
  define G where "G = snd (graceful_phase os root_pid)"
  define tr4 where "tr4 = snd (primary_wait os root_pid timeout)"
  define res2 where "res2 = record_gone gone res1"
  define res3 where "res3 = fst (escalate os alive (res2, tr4))"
  have r': "res = clean_lists res3"
    by (simp add: r res3_def res2_def res1_def tr4_def)
  have t': "tr = snd (escalate os alive (res2, tr4))"
    by (simp add: t res2_def res1_def tr4_def)
  have G4: "set G \<subseteq> set tr4"
    using primary_wait_trace [of os root_pid timeout] by (auto simp add: G_def tr4_def)
  have G_tr: "set G \<subseteq> set tr"
    using G4 trace_grows(4) [of tr4 os alive res2] unfolding t' by blast
  have no_kill: "\<not> (\<exists>p e. x = Some (pid p) \<and> Kill p (Raised e) \<in> set tr)"
    using q not_delivered(2) [of _ _ tr] by (auto simp add: x_def)
  have no_term: "\<not> (\<exists>p e. x = Some (pid p) \<and> Terminate p (Raised e) \<in> set tr)"
    using q not_delivered(1) [of _ _ tr] by (auto simp add: x_def)
  have g1: "terminated res1 = []" "killed res1 = []"
    using graceful_phase_result [of os root_pid] by (simp_all add: res1_def)
  have "x \<in> fst ` set (failed res1) \<longrightarrow>
      x \<in> fst ` set (failed empty_result)
      \<or> (\<exists>p e. x = Some (pid p) \<and> Terminate p (Raised e) \<in> set G)"
    using graceful_failed_source [of x os "tree_handles os root_pid" empty_result
        "snd (build_all_procs os (Process root_pid) [Process_init root_pid (Returned ())])"]
    by (simp add: res1_def G_def graceful_phase_def)
  then have f1: "x \<notin> fst ` set (failed res1)"
    using no_term G_tr by (auto simp add: empty_result_def)
  have res2_eq: "terminated res2 = map (\<lambda>p. Some (pid p)) gone" "killed res2 = []"
    "failed res2 = failed res1"
    using g1 by (simp_all add: res2_def record_gone_result)
  have wf: "wait_for_termination os (tree_handles os root_pid) timeout G = (Returned (gone, alive), tr4)"
    using w by (simp add: primary_wait_def G_def tr4_def prod_eq_iff)
  have dis: "pids_of gone \<inter> pids_of alive = {}"
    using wait_for_termination_disjoint(1) [OF d wf] by (rule pids_of_disjoint)
  have da: "distinct alive \<or> waits_returned tr"
    using c wait_for_termination_disjoint(2) [OF d wf] by blast
  have T: "x \<in> set (terminated res) \<longrightarrow> x \<in> pids_of gone"
  proof
    assume "x \<in> set (terminated res)"
    then have "x \<in> set (terminated res3)" by (simp add: r' clean_terminated)
    with escalate_sources(1) [OF p, of x alive res2 tr4] no_kill
    have "x \<in> set (terminated res2)" by (auto simp add: res3_def t')
    then show "x \<in> pids_of gone" by (auto simp add: res2_eq pids_of_def)
  qed
  have F: "x \<in> fst ` set (failed res) \<longrightarrow> x \<in> pids_of alive"
  proof
    assume "x \<in> fst ` set (failed res)"
    then have "x \<in> fst ` set (failed res3)" by (auto simp add: r' clean_failed)
    with escalate_sources(2) [OF p, of x alive res2 tr4] no_kill
    have "x \<in> fst ` set (failed res2) \<or> x \<in> pids_of alive" by (auto simp add: res3_def t')
    with f1 show "x \<in> pids_of alive" by (simp add: res2_eq)
  qed
  have KF: "\<not> (x \<in> set (killed res) \<and> x \<in> fst ` set (failed res))"
  proof
    assume a: "x \<in> set (killed res) \<and> x \<in> fst ` set (failed res)"
    then have "x \<in> set (killed res3)" "x \<in> fst ` set (failed res3)"
      by (auto simp add: r' clean_killed clean_failed)
    with escalate_sources(3) [OF p, of alive res2 tr4 x] d da no_kill
    have "x \<in> set (killed res2) \<or> x \<in> fst ` set (failed res2)"
      by (auto simp add: res3_def t')
    with f1 show False by (simp add: res2_eq)
  qed
  have TK: "\<not> (x \<in> set (terminated res) \<and> x \<in> set (killed res))"
    by (auto simp add: r' clean_terminated clean_killed)
  have TF: "\<not> (x \<in> set (terminated res) \<and> x \<in> fst ` set (failed res))"
    using T F dis by blast
  from TK TF KF show ?thesis
    unfolding buckets_holding_def x_def [symmetric] by auto
qed

lemma in_bucket_holding: "x \<in> bucket_pids res \<longleftrightarrow> 1 \<le> buckets_holding res x"
  by (auto simp add: bucket_pids_def buckets_holding_def)






text \<open>
  Claim C1, as amended. For every outcome returned by terminate_process_tree, on a system
  whose \<^verbatim>\<open>wait_procs\<close> splits the processes it is given into two lists: the terminated
  and the killed bucket share no pid, and the pids of the three buckets all belong to the
  root or to the descendants discovered at the call. When moreover no process is in both
  lists of a \<^verbatim>\<open>wait_procs\<close> answer, a pid whose \<^verbatim>\<open>terminate()\<close> and \<^verbatim>\<open>kill()\<close> calls all
  returned is in at most one of the three buckets (the tree listing no process twice, or
  no \<^verbatim>\<open>wait_procs\<close> call raising). When the root resolved and the primary
  \<^verbatim>\<open>wait_procs\<close> call returned, every process of \<^verbatim>\<open>all_procs\<close> with a nonzero pid is in at
  least one bucket, hence in exactly one under the conditions just named. Nothing is said
  about the other buckets of a pid whose \<^verbatim>\<open>terminate()\<close> or \<^verbatim>\<open>kill()\<close> raised, beyond the
  first two properties and its being in some bucket.
\<close>

theorem outcome_buckets:
  assumes "wait_procs_partitions os"
    and "terminate_process_tree os root_pid timeout = (Returned res, tr)"
  shows "set (terminated res) \<inter> set (killed res) = {}
     \<and> bucket_pids res \<subseteq> insert (Some root_pid) (pids_of (discovered_children os root_pid))
     \<and> (\<forall>q. wait_procs_disjoint os \<and> signals_delivered tr q
              \<and> (distinct (tree_handles os root_pid) \<or> waits_returned tr)
            \<longrightarrow> buckets_holding res (Some q) \<le> 1)
     \<and> (Process_new os root_pid [] = Returned ()
          \<and> (\<exists>ga. primary_wait_procs os root_pid timeout = Returned ga)
        \<longrightarrow> (\<forall>p \<in> set (tree_handles os root_pid). pid p \<noteq> 0 \<longrightarrow>
               Some (pid p) \<in> bucket_pids res
               \<and> (wait_procs_disjoint os \<and> signals_delivered tr (pid p)
                    \<and> (distinct (tree_handles os root_pid) \<or> waits_returned tr)
                  \<longrightarrow> buckets_holding res (Some (pid p)) = 1)))"
proof -
  have old: "set (terminated res) \<inter> set (killed res) = {}
     \<and> bucket_pids res \<subseteq> insert (Some root_pid) (pids_of (discovered_children os root_pid))
     \<and> (Process_new os root_pid [] = Returned ()
          \<and> (\<exists>ga. primary_wait_procs os root_pid timeout = Returned ga)
        \<longrightarrow> (\<forall>p \<in> set (tree_handles os root_pid). pid p \<noteq> 0 \<longrightarrow> Some (pid p) \<in> bucket_pids res))"
    using outcome_buckets_basic [OF assms] .
  have most: "buckets_holding res (Some q) \<le> 1"
    if d: "wait_procs_disjoint os" and q: "signals_delivered tr q"
      and c: "distinct (tree_handles os root_pid) \<or> waits_returned tr" for q
  proof (cases "Process_new os root_pid []")
    case (Raised e)
    with assms(2) show ?thesis
      by (cases e) (auto simp add: terminate_process_tree_def empty_result_def buckets_holding_def)
  next
    case (Returned u)
    then have h: "Process_new os root_pid [] = Returned ()" by simp
    from resolved_at_most_one [OF assms(1) d h assms(2) c q] show ?thesis .
  qed
  have one: "buckets_holding res (Some (pid p)) = 1"
    if "Some (pid p) \<in> bucket_pids res" "wait_procs_disjoint os" "signals_delivered tr (pid p)"
      "distinct (tree_handles os root_pid) \<or> waits_returned tr" for p
    using most [OF that(2,3,4)] that(1) in_bucket_holding [of "Some (pid p)" res] by simp
  from old most one show ?thesis by blast
qed

theorem outcome_buckets_witness:
  "wait_procs_partitions stubborn_child
   \<and> wait_procs_disjoint stubborn_child
   \<and> fst (terminate_process_tree stubborn_child 10 5) =
       Returned \<lparr>terminated = [Some 11, Some 10], killed = [Some 12], failed = []\<rparr>
   \<and> distinct (tree_handles stubborn_child 10)
   \<and> signals_delivered (snd (terminate_process_tree stubborn_child 10 5)) 11
   \<and> signals_delivered (snd (terminate_process_tree stubborn_child 10 5)) 12
   \<and> signals_delivered (snd (terminate_process_tree stubborn_child 10 5)) 10
   \<and> set [Some 11, Some (10::int)] \<inter> set [Some 12] = {}
   \<and> bucket_pids \<lparr>terminated = [Some 11, Some 10], killed = [Some 12], failed = []\<rparr>
        \<subseteq> insert (Some 10) (pids_of [Process 11, Process 12])
   \<and> buckets_holding \<lparr>terminated = [Some 11, Some 10], killed = [Some 12], failed = []\<rparr> (Some 11) = 1
   \<and> buckets_holding \<lparr>terminated = [Some 11, Some 10], killed = [Some 12], failed = []\<rparr> (Some 12) = 1
   \<and> buckets_holding \<lparr>terminated = [Some 11, Some 10], killed = [Some 12], failed = []\<rparr> (Some 10) = 1"
proof -
  let ?R = "\<lparr>terminated = [Some 11, Some 10], killed = [Some 12], failed = []\<rparr>"
  let ?T = "snd (terminate_process_tree stubborn_child 10 5)"
  have c: "wait_procs_partitions stubborn_child"
    by (auto simp add: wait_procs_partitions_def stubborn_child_def)
  have e: "wait_procs_disjoint stubborn_child"
    by (auto simp add: wait_procs_disjoint_def stubborn_child_def)
  have v: "fst (terminate_process_tree stubborn_child 10 5) = Returned ?R"
    by (simp add: run_defs stubborn_child_def)
  then have r: "terminate_process_tree stubborn_child 10 5 = (Returned ?R, ?T)"
    by (simp add: prod_eq_iff)
  have h: "Process_new stubborn_child 10 [] = Returned ()"
    by (simp add: stubborn_child_def)
  have t: "tree_handles stubborn_child 10 = [Process 11, Process 12, Process 10]"
    by (simp add: phase_defs run_defs stubborn_child_def)
  have d: "discovered_children stubborn_child 10 = [Process 11, Process 12]"
    by (simp add: phase_defs run_defs stubborn_child_def)
  have w: "primary_wait_procs stubborn_child 10 5 = Returned ([Process 11, Process 10], [Process 12])"
    by (simp add: phase_defs run_defs stubborn_child_def)
  have s: "signals_delivered ?T 11" "signals_delivered ?T 12" "signals_delivered ?T 10"
    by (simp_all add: run_defs stubborn_child_def signals_delivered_def)
  have dt: "distinct (tree_handles stubborn_child 10)"
    by (simp add: t)
  note th = outcome_buckets [OF c r]
  from th have 1: "set (terminated ?R) \<inter> set (killed ?R) = {}"
    and 2: "bucket_pids ?R \<subseteq> insert (Some 10) (pids_of (discovered_children stubborn_child 10))"
    by blast+
  from th h w have 3: "\<forall>p \<in> set (tree_handles stubborn_child 10). pid p \<noteq> 0 \<longrightarrow>
               Some (pid p) \<in> bucket_pids ?R
               \<and> (wait_procs_disjoint stubborn_child \<and> signals_delivered ?T (pid p)
                    \<and> (distinct (tree_handles stubborn_child 10) \<or> waits_returned ?T)
                  \<longrightarrow> buckets_holding ?R (Some (pid p)) = 1)"
    by blast
  have 4: "buckets_holding ?R (Some 11) = 1" "buckets_holding ?R (Some 12) = 1"
    "buckets_holding ?R (Some 10) = 1"
    using 3 e s dt unfolding t by simp_all
  from c e v dt s 1 2 4 show ?thesis
    unfolding d by simp
qed

text \<open>Child 11 has exited before the graceful request: the request raises, which
  puts 11 into failed, and the primary wait reports 11 as gone, which puts it into
  terminated as well.\<close>

theorem outcome_buckets_counterexample:
  "fst (terminate_process_tree early_exits 10 5) =
     Returned \<lparr>terminated = [Some 11, Some 10, Some 12], killed = [],
                failed = [(Some 11, ''terminate error: process no longer exists'')]\<rparr>
   \<and> Some 11 \<in> set [Some 11, Some 10, Some (12::int)]
         \<inter> fst ` set [(Some (11::int), ''terminate error: process no longer exists'')]
   \<and> Terminate (Process 11) (Raised (NoSuchProcess ''process no longer exists''))
        \<in> set (snd (terminate_process_tree early_exits 10 5))
   \<and> wait_procs_partitions early_exits
   \<and> wait_procs_disjoint early_exits"
proof -
  have a: "fst (terminate_process_tree early_exits 10 5) =
     Returned \<lparr>terminated = [Some 11, Some 10, Some 12], killed = [],
                failed = [(Some 11, ''terminate error: process no longer exists'')]\<rparr>"
    by (simp add: run_defs early_exits_def)
  have b: "Terminate (Process 11) (Raised (NoSuchProcess ''process no longer exists''))
        \<in> set (snd (terminate_process_tree early_exits 10 5))"
    by (simp add: run_defs early_exits_def)
  have c: "wait_procs_partitions early_exits"
    by (auto simp add: wait_procs_partitions_def early_exits_def)
  have d: "wait_procs_disjoint early_exits"
    by (auto simp add: wait_procs_disjoint_def early_exits_def)
  from a b c d show ?thesis by simp
qed

text \<open>Why the other conditions of the statement are there: a process that is gone
  when the primary wait raises is in no bucket; pid 0 is dropped from every bucket by the
  final cleanup; and a process listed twice can be put into killed and into failed when
  both waits raise.\<close>

lemma gone_when_wait_raises:
  "tree_handles wait_fails_all_gone 10 = [Process 11, Process 12, Process 10]
   \<and> fst (terminate_process_tree wait_fails_all_gone 10 (- 1)) =
       Returned \<lparr>terminated = [], killed = [], failed = []\<rparr>"
  by (simp add: phase_defs run_defs wait_fails_all_gone_def wait_fails_def stubborn_child_def)

lemma pid_zero_dropped:
  "Process 0 \<in> set (tree_handles messy_tree 10)
   \<and> primary_wait_procs messy_tree 10 5 = Returned ([Process 0, Process 11, Process 11, Process 10], [])
   \<and> fst (terminate_process_tree messy_tree 10 5) =
       Returned \<lparr>terminated = [Some 11, Some 10], killed = [], failed = []\<rparr>"
  by (simp add: phase_defs run_defs messy_tree_def)

lemma listed_twice_in_two_buckets:
  "tree_handles listed_twice 10 = [Process 11, Process 11, Process 10]
   \<and> fst (terminate_process_tree listed_twice 10 (- 1)) =
       Returned \<lparr>terminated = [], killed = [Some 11, Some 10],
                  failed = [(Some 11, ''still alive after kill'')]\<rparr>
   \<and> signals_delivered (snd (terminate_process_tree listed_twice 10 (- 1))) 11
   \<and> \<not> waits_returned (snd (terminate_process_tree listed_twice 10 (- 1)))"
  by (simp add: phase_defs run_defs listed_twice_def wait_fails_def stubborn_child_def
      signals_delivered_def waits_returned_def)

text \<open>
  Claim C3. A root pid that does not resolve to a live process (line 103,
  \<^verbatim>\<open>NoSuchProcess\<close>) gives the outcome with all three buckets empty. A root whose
  lookup raises any other exception gives exactly one failed entry, for the root pid,
  and empty terminated and killed buckets. In both cases the log of the call holds the
  lookup of the root and nothing else: no enumeration, no signal, no wait.
\<close>

theorem unresolved_root:
  "(Process_new os root_pid [] = Raised (NoSuchProcess m) \<longrightarrow>
      terminate_process_tree os root_pid timeout =
        (Returned \<lparr>terminated = [], killed = [], failed = []\<rparr>,
         [Process_init root_pid (Raised (NoSuchProcess m))]))
   \<and> (Process_new os root_pid [] = Raised e \<and> (\<forall>m'. e \<noteq> NoSuchProcess m') \<longrightarrow>
      terminate_process_tree os root_pid timeout =
        (Returned \<lparr>terminated = [], killed = [],
                   failed = [(Some root_pid, ''cannot access process: '' @ str e)]\<rparr>,
         [Process_init root_pid (Raised e)]))"
  by (cases e) (simp_all add: terminate_process_tree_def empty_result_def)

theorem unresolved_root_witness:
  "terminate_process_tree vanished_root 42 5 =
     (Returned \<lparr>terminated = [], killed = [], failed = []\<rparr>,
      [Process_init 42 (Raised (NoSuchProcess ''process no longer exists''))])
   \<and> terminate_process_tree denied_root 42 5 =
     (Returned \<lparr>terminated = [], killed = [],
                failed = [(Some 42, ''cannot access process: access denied'')]\<rparr>,
      [Process_init 42 (Raised (AccessDenied ''access denied''))])"
  using unresolved_root [where os = vanished_root and root_pid = 42 and timeout = 5
      and m = "''process no longer exists''"]
    unresolved_root [where os = denied_root and root_pid = 42 and timeout = 5
      and e = "AccessDenied ''access denied''"]
  by (simp add: vanished_root_def denied_root_def stubborn_child_def)




text \<open>
  Claim C4. A process whose forced kill raises \<^verbatim>\<open>NoSuchProcess\<close> is appended to the
  terminated bucket by the escalation phase (lines 144-169), and that phase does not
  append it to the killed bucket. In the returned outcome it is never in the killed
  bucket, and it is in the terminated bucket unless its pid is 0, which the final cleanup
  of line 172 drops from every bucket.
\<close>

theorem vanished_at_kill_is_terminated:
  "(snd (escalate os alive (res0, tr0)) = tr0 @ evs \<and> Kill p (Raised (NoSuchProcess m)) \<in> set evs
       \<longrightarrow> Some (pid p) \<in> set (terminated (fst (escalate os alive (res0, tr0))))
         \<and> (Some (pid p) \<notin> set (killed res0)
              \<longrightarrow> Some (pid p) \<notin> set (killed (fst (escalate os alive (res0, tr0))))))
   \<and> (terminate_process_tree os root_pid timeout = (Returned res, tr)
         \<and> Kill p (Raised (NoSuchProcess m)) \<in> set tr
       \<longrightarrow> Some (pid p) \<notin> set (killed res)
         \<and> (pid p \<noteq> 0 \<longrightarrow> Some (pid p) \<in> set (terminated res)))"
proof -
  have final: "Some (pid p) \<notin> set (killed res) \<and> (pid p \<noteq> 0 \<longrightarrow> Some (pid p) \<in> set (terminated res))"
    if run: "terminate_process_tree os root_pid timeout = (Returned res, tr)"
      and k: "Kill p (Raised (NoSuchProcess m)) \<in> set tr" 
  proof (cases "Process_new os root_pid []")
    case (Raised e)
    from unresolved_run_trace [OF Raised, of timeout] run k show ?thesis by simp
  next
    case (Returned u)
    then have h: "Process_new os root_pid [] = Returned ()" by simp
    obtain gone alive where
      r: "res = clean_lists (fst (escalate os alive
        (record_gone gone (fst (graceful_phase os root_pid)), snd (primary_wait os root_pid timeout))))"
      and t: "tr = snd (escalate os alive
        (record_gone gone (fst (graceful_phase os root_pid)), snd (primary_wait os root_pid timeout)))"
      using resolved_run_returned [OF h run] by metis
    define res2 where "res2 = record_gone gone (fst (graceful_phase os root_pid))"
    define tr4 where "tr4 = snd (primary_wait os root_pid timeout)"
    obtain post where p: "tr4 = snd (graceful_phase os root_pid)
         @ Wait_procs (tree_handles os root_pid) timeout (primary_wait_procs os root_pid timeout) # post"
      "forced_kills post = []"
      using primary_wait_trace [of os root_pid timeout] unfolding tr4_def by blast
    have nk: "forced_kills tr4 = []"
      unfolding p(1) using p(2) graceful_phase_trace(2) [of os root_pid] by simp
    obtain evs where e: "snd (escalate os alive (res2, tr4)) = tr4 @ evs"
      using escalate_trace [of os alive res2 tr4] by blast
    have "Kill p (Raised (NoSuchProcess m)) \<notin> set tr4"
      using kill_in_forced_kills [of p _ tr4] nk by auto
    with k t e have "Kill p (Raised (NoSuchProcess m)) \<in> set evs"
      by (simp add: res2_def tr4_def)
    from escalate_vanished [OF e this]
    have "Some (pid p) \<in> set (terminated (fst (escalate os alive (res2, tr4))))" by simp
    then show ?thesis
      unfolding r res2_def [symmetric] tr4_def [symmetric]
      by (simp add: clean_terminated clean_killed truthy_def)
  qed
  show ?thesis
    using escalate_vanished [of os alive res0 tr0 evs p m] final by blast
qed


theorem vanished_at_kill_is_terminated_witness:
  "snd (escalate early_exits [Process 12] (empty_result, [])) =
     [] @ [Kill (Process 12) (Raised (NoSuchProcess ''process no longer exists'')),
           Wait_procs [Process 12] 3 (Returned ([Process 12], []))]
   \<and> Some 12 \<in> set (terminated (fst (escalate early_exits [Process 12] (empty_result, []))))
   \<and> Some 12 \<notin> set (killed (fst (escalate early_exits [Process 12] (empty_result, []))))
   \<and> Kill (Process 12) (Raised (NoSuchProcess ''process no longer exists''))
      \<in> set (snd (terminate_process_tree early_exits 10 5))
   \<and> fst (terminate_process_tree early_exits 10 5) =
       Returned \<lparr>terminated = [Some 11, Some 10, Some 12], killed = [],
                  failed = [(Some 11, ''terminate error: process no longer exists'')]\<rparr>
   \<and> Some 12 \<in> set [Some 11, Some 10, Some (12::int)]
   \<and> Some (12::int) \<notin> set []"
proof -
  let ?e = "Kill (Process 12) (Raised (NoSuchProcess ''process no longer exists''))"
  let ?evs = "[?e, Wait_procs [Process 12] 3 (Returned ([Process 12], []))]"
  let ?R = "\<lparr>terminated = [Some 11, Some 10, Some 12], killed = [],
                  failed = [(Some 11, ''terminate error: process no longer exists'')]\<rparr>"
  have s: "snd (escalate early_exits [Process 12] (empty_result, [])) = [] @ ?evs"
    by (simp add: run_defs early_exits_def)
  have k: "?e \<in> set (snd (terminate_process_tree early_exits 10 5))"
    by (simp add: run_defs early_exits_def)
  have v: "fst (terminate_process_tree early_exits 10 5) = Returned ?R"
    by (simp add: run_defs early_exits_def)
  then have r: "terminate_process_tree early_exits 10 5 =
       (Returned ?R, snd (terminate_process_tree early_exits 10 5))"
    by (simp add: prod_eq_iff)
  note t = vanished_at_kill_is_terminated [where os = early_exits and p = "Process 12"
      and m = "''process no longer exists''" and alive = "[Process 12]" and res0 = empty_result
      and ?tr0.0 = "[]" and evs = ?evs and root_pid = 10 and timeout = 5 and res = ?R
      and tr = "snd (terminate_process_tree early_exits 10 5)"]
  have a: "Some 12 \<in> set (terminated (fst (escalate early_exits [Process 12] (empty_result, []))))
     \<and> Some 12 \<notin> set (killed (fst (escalate early_exits [Process 12] (empty_result, []))))"
    using t s by (simp add: empty_result_def)
  have b: "Some 12 \<notin> set (killed ?R) \<and> Some 12 \<in> set (terminated ?R)"
    using t r k by simp
  from s a k v b show ?thesis by simp
qed

text \<open>
  Claim C5, as amended. The secondary wait, applied to the survivors of the primary wait
  after the forced kill, always has the constant timeout 3, whatever the primary timeout
  is; this is 3/5 of the primary timeout when the primary timeout is 5, the default of
  the function and the value its callers pass.
\<close>

theorem secondary_wait_constant:
  "\<forall>s \<in> set (secondary_waits (snd (terminate_process_tree os root_pid timeout))).
      s = 3 \<and> (timeout = 5 \<longrightarrow> s = 3 / 5 * timeout)"
proof (cases "Process_new os root_pid []")
  case (Raised e)
  then show ?thesis by (simp add: unresolved_run_trace secondary_waits_def)
next
  case (Returned u)
  then obtain post where p: "snd (terminate_process_tree os root_pid timeout) =
       snd (graceful_phase os root_pid)
         @ Wait_procs (tree_handles os root_pid) timeout (primary_wait_procs os root_pid timeout) # post"
    "set (wait_timeouts post) \<subseteq> {3}"
    using resolved_run_trace [of os root_pid timeout] by auto
  have "secondary_waits (snd (terminate_process_tree os root_pid timeout)) = wait_timeouts post"
    unfolding p(1) by (simp add: secondary_waits_def graceful_phase_trace)
  with p(2) show ?thesis by auto
qed

theorem secondary_wait_constant_witness:
  "3 \<in> set (secondary_waits (snd (terminate_process_tree stubborn_child 10 5)))
   \<and> (3::real) = 3 / 5 * 5"
proof -
  have m: "3 \<in> set (secondary_waits (snd (terminate_process_tree stubborn_child 10 5)))"
    by (simp add: run_defs secondary_waits_def stubborn_child_def)
  from secondary_wait_constant [of stubborn_child 10 5] m
  have "(3::real) = 3 \<and> ((5::real) = 5 \<longrightarrow> (3::real) = 3 / 5 * 5)" by blast
  with m show ?thesis by simp
qed

text \<open>With a primary timeout of 100 the secondary wait is still 3, which is not near
  3/5 of 100.\<close>

theorem secondary_wait_ratio_counterexample:
  "secondary_waits (snd (terminate_process_tree stubborn_child 10 100)) = [3]
   \<and> (3::real) \<noteq> 3 / 5 * 100
   \<and> \<bar>3 - 3 / 5 * 100\<bar> > 1 / 2 * (3 / 5 * (100::real))"
  by (simp add: run_defs secondary_waits_def stubborn_child_def)

text \<open>
  Claim C10. In every outcome that passed the final cleanup of lines 171-174 (the outcome
  of a call whose root resolved): the terminated list has no duplicates, the killed list
  has no duplicates and shares no pid with the terminated list, neither list contains
  \<^verbatim>\<open>None\<close> or 0, and the pid of every failed entry is neither \<^verbatim>\<open>None\<close> nor 0.
\<close>

theorem cleaned_outcome:
  assumes "Process_new os root_pid [] = Returned ()"
    and "terminate_process_tree os root_pid timeout = (Returned res, tr)"
  shows "distinct (terminated res) \<and> distinct (killed res)
     \<and> set (killed res) \<inter> set (terminated res) = {}
     \<and> None \<notin> set (terminated res) \<and> Some 0 \<notin> set (terminated res)
     \<and> None \<notin> set (killed res) \<and> Some 0 \<notin> set (killed res)
     \<and> (\<forall>(p, msg) \<in> set (failed res). p \<noteq> None \<and> p \<noteq> Some 0)"
proof -
  obtain res3 where r: "res = clean_lists res3"
    using resolved_run_returned [OF assms] by metis
  have t: "\<And>x. truthy x \<Longrightarrow> x \<noteq> None \<and> x \<noteq> Some 0"
    by (auto simp add: truthy_def split: option.splits)
  have 1: "distinct (terminated res)" "distinct (killed res)"
    unfolding r by (rule clean_distinct)+
  have 2: "set (killed res) \<inter> set (terminated res) = {}"
    unfolding r by (auto simp add: clean_terminated clean_killed)
  have 3: "None \<notin> set (terminated res)" "Some 0 \<notin> set (terminated res)"
    "None \<notin> set (killed res)" "Some 0 \<notin> set (killed res)"
    unfolding r using t by (auto simp add: clean_terminated clean_killed)
  have 4: "\<forall>(p, msg) \<in> set (failed res). p \<noteq> None \<and> p \<noteq> Some 0"
    unfolding r using t by (auto simp add: clean_failed)
  from 1 2 3 4 show ?thesis by simp
qed

theorem cleaned_outcome_witness:
  "Process_new messy_tree 10 [] = Returned ()
   \<and> fst (terminate_process_tree messy_tree 10 5) =
       Returned \<lparr>terminated = [Some 11, Some 10], killed = [], failed = []\<rparr>
   \<and> distinct [Some 11, Some (10::int)]
   \<and> Some (0::int) \<notin> set [Some 11, Some 10]"
proof -
  have h: "Process_new messy_tree 10 [] = Returned ()"
    by (simp add: messy_tree_def)
  have v: "fst (terminate_process_tree messy_tree 10 5) =
      Returned \<lparr>terminated = [Some 11, Some 10], killed = [], failed = []\<rparr>"
    by (simp add: run_defs messy_tree_def)
  then have r: "terminate_process_tree messy_tree 10 5 =
      (Returned \<lparr>terminated = [Some 11, Some 10], killed = [], failed = []\<rparr>,
       snd (terminate_process_tree messy_tree 10 5))"
    by (simp add: prod_eq_iff)
  from cleaned_outcome [OF h r] h v show ?thesis by simp
qed

section \<open>The claims about categorize_process and the snapshot\<close>

lemmas str_defs = str_lower_def str_upper_def lower_char_def upper_char_def or_empty_def

text \<open>
  Claim C6. categorize_process gives a category for every input, by the first rule that
  applies: pid 0 is "System Idle"; any other pid up to 4 is "System", whatever name and
  owner are; above 4, an absent owner is "Background", also when the name contains
  "service"; with an owner, a name containing "service" in any letter case, or the owner
  SYSTEM, or an owner starting with NT AUTHORITY (in any letter case) is "Services";
  everything else is "User"; and an exception in the body (here: the pid is \<^verbatim>\<open>None\<close>)
  is "Other".
\<close>

theorem categorize_rules:
  "categorize_process (Some 0) name username = ''System Idle''
   \<and> (n \<le> 4 \<and> n \<noteq> 0 \<longrightarrow> categorize_process (Some n) name username = ''System'')
   \<and> (4 < n \<longrightarrow> categorize_process (Some n) name None = ''Background'')
   \<and> (4 < n \<and> (sublist ''service'' (str_lower (or_empty name)) \<or> str_upper u = ''SYSTEM''
                 \<or> prefix ''NT AUTHORITY'' (str_upper u))
        \<longrightarrow> categorize_process (Some n) name (Some u) = ''Services'')
   \<and> (4 < n \<and> \<not> sublist ''service'' (str_lower (or_empty name)) \<and> str_upper u \<noteq> ''SYSTEM''
             \<and> \<not> prefix ''NT AUTHORITY'' (str_upper u)
        \<longrightarrow> categorize_process (Some n) name (Some u) = ''User'')
   \<and> (categorize_body p name username = Raised e \<longrightarrow> categorize_process p name username = ''Other'')
   \<and> categorize_process None name username = ''Other''
   \<and> categorize_process p name username
        \<in> {''System Idle'', ''System'', ''Background'', ''Services'', ''User'', ''Other''}"
proof -
  have 1: "categorize_process (Some 0) name username = ''System Idle''"
    by (simp add: categorize_process_def categorize_body_def)
  have 2: "n \<le> 4 \<and> n \<noteq> 0 \<longrightarrow> categorize_process (Some n) name username = ''System''"
    by (simp add: categorize_process_def categorize_body_def)
  have 3: "4 < n \<longrightarrow> categorize_process (Some n) name None = ''Background''"
    by (simp add: categorize_process_def categorize_body_def)
  have 4: "4 < n \<and> (sublist ''service'' (str_lower (or_empty name)) \<or> str_upper u = ''SYSTEM''
                 \<or> prefix ''NT AUTHORITY'' (str_upper u))
        \<longrightarrow> categorize_process (Some n) name (Some u) = ''Services''"
    by (simp add: categorize_process_def categorize_body_def Let_def)
  have 5: "4 < n \<and> \<not> sublist ''service'' (str_lower (or_empty name)) \<and> str_upper u \<noteq> ''SYSTEM''
             \<and> \<not> prefix ''NT AUTHORITY'' (str_upper u)
        \<longrightarrow> categorize_process (Some n) name (Some u) = ''User''"
    by (simp add: categorize_process_def categorize_body_def Let_def)
  have 6: "categorize_body p name username = Raised e \<longrightarrow> categorize_process p name username = ''Other''"
    by (simp add: categorize_process_def)
  have 7: "categorize_process None name username = ''Other''"
    by (simp add: categorize_process_def categorize_body_def)
  have 8: "categorize_process p name username
        \<in> {''System Idle'', ''System'', ''Background'', ''Services'', ''User'', ''Other''}"
    by (simp add: categorize_process_def categorize_body_def Let_def split: option.splits)
  from 1 2 3 4 5 6 7 8 show ?thesis by blast
qed

theorem categorize_rules_witness:
  "categorize_process (Some 4) (Some ''x'') None = ''System''
   \<and> categorize_process (Some 100) (Some ''MyService'') None = ''Background''
   \<and> categorize_process (Some 100) (Some ''MyService'') (Some ''bob'') = ''Services''
   \<and> categorize_process (Some 100) (Some ''bash'') (Some ''nt authority'') = ''Services''
   \<and> categorize_process (Some 100) (Some ''bash'') (Some ''bob'') = ''User''
   \<and> categorize_body None (Some ''bash'') (Some ''bob'') = Raised (OtherError ''TypeError'')
   \<and> categorize_process None (Some ''bash'') (Some ''bob'') = ''Other''"
proof -
  have a: "categorize_process (Some 4) (Some ''x'') None = ''System''"
    using categorize_rules [where n = 4 and name = "Some ''x''" and username = None] by simp
  have b: "categorize_process (Some 100) (Some ''MyService'') None = ''Background''"
    using categorize_rules [where n = 100 and name = "Some ''MyService''"] by simp
  have "sublist ''service'' (str_lower (or_empty (Some ''MyService'')))"
    by code_simp
  then have c: "categorize_process (Some 100) (Some ''MyService'') (Some ''bob'') = ''Services''"
    using categorize_rules [where n = 100 and name = "Some ''MyService''" and u = "''bob''"]
    by simp
  have "prefix ''NT AUTHORITY'' (str_upper ''nt authority'')"
    by code_simp
  then have d: "categorize_process (Some 100) (Some ''bash'') (Some ''nt authority'') = ''Services''"
    using categorize_rules [where n = 100 and name = "Some ''bash''" and u = "''nt authority''"]
    by simp
  have "\<not> sublist ''service'' (str_lower (or_empty (Some ''bash'')))"
    "str_upper ''bob'' \<noteq> ''SYSTEM''" "\<not> prefix ''NT AUTHORITY'' (str_upper ''bob'')"
    by code_simp+
  then have e: "categorize_process (Some 100) (Some ''bash'') (Some ''bob'') = ''User''"
    using categorize_rules [where n = 100 and name = "Some ''bash''" and u = "''bob''"]
    by simp
  have f: "categorize_body None (Some ''bash'') (Some ''bob'') = Raised (OtherError ''TypeError'')"
    by (simp add: categorize_body_def)
  have g: "categorize_process None (Some ''bash'') (Some ''bob'') = ''Other''"
    using categorize_rules [where p = None and name = "Some ''bash''" and username = "Some ''bob''"
        and e = "OtherError ''TypeError''"] f by simp
  from a b c d e f g show ?thesis by simp
qed

lemma snapshot_loop_returns:
  "\<forall>p \<in> set ps. \<forall>m. read_info p \<noteq> Raised (OtherError m) \<Longrightarrow>
     snapshot_loop h ps procs = Returned (procs @ returned_entries h ps)"
proof (induction ps arbitrary: procs)
  case Nil
  then show ?case by (simp add: returned_entries_def)
next
  case (Cons p ps)
  then have ih: "\<And>procs. snapshot_loop h ps procs = Returned (procs @ returned_entries h ps)"
    by simp
  show ?case
  proof (cases "read_info p")
    case (Returned i)
    then show ?thesis by (simp add: ih returned_entries_def)
  next
    case (Raised e)
    with Cons.prems show ?thesis
      by (cases e) (simp_all add: ih returned_entries_def)
  qed
qed

text \<open>
  Claim C7, as amended. When no process fails with anything but \<^verbatim>\<open>NoSuchProcess\<close> or
  \<^verbatim>\<open>AccessDenied\<close> while its attributes are read, fetch_processes_real_time does not
  raise: it returns, in enumeration order, one entry for every process whose attributes
  were read, and omits exactly the processes for which that reading failed. A failure of
  \<^verbatim>\<open>cpu_percent\<close> or of \<^verbatim>\<open>threads\<close> is swallowed by a handler of its own and does not
  omit the process: the entry is returned with the CPU value 0 or the empty thread list.
\<close>

theorem snapshot_policy:
  "((\<forall>p \<in> set second_pass. \<forall>m. read_info p \<noteq> Raised (OtherError m)) \<longrightarrow>
      fetch_processes_real_time h first_pass second_pass = Returned (returned_entries h second_pass))
   \<and> (cpu_percent p = Raised e \<longrightarrow> entry_cpu (make_entry h p i) = 0)
   \<and> (threads p = Raised e \<longrightarrow> entry_threads (make_entry h p i) = [])"
  by (simp add: fetch_processes_real_time_def snapshot_loop_returns make_entry_def Let_def)

lemmas snapshot_defs = fetch_processes_real_time_def make_entry_def returned_entries_def
  exited_after_enumeration_def unreadable_def healthy_def categorize_process_def
  categorize_body_def str_defs Let_def

theorem snapshot_policy_witness:
  "(\<forall>m. read_info exited_after_enumeration \<noteq> Raised (OtherError m))
   \<and> read_info unreadable = Raised (AccessDenied ''access denied'')
   \<and> (\<forall>m. read_info healthy \<noteq> Raised (OtherError m))
   \<and> fetch_processes_real_time (\<lambda>n. []) [] [exited_after_enumeration, unreadable, healthy]
       = Returned (returned_entries (\<lambda>n. []) [exited_after_enumeration, unreadable, healthy])
   \<and> map entry_pid (returned_entries (\<lambda>n. []) [exited_after_enumeration, unreadable, healthy]) = [77, 80]
   \<and> map entry_cpu (returned_entries (\<lambda>n. []) [exited_after_enumeration, unreadable, healthy]) = [0, 2]
   \<and> map entry_threads (returned_entries (\<lambda>n. []) [exited_after_enumeration, unreadable, healthy]) = [[], [80, 81]]
   \<and> map entry_category (returned_entries (\<lambda>n. []) [exited_after_enumeration, unreadable, healthy])
       = [''User'', ''Services'']"
proof -
  have h: "\<forall>p \<in> set [exited_after_enumeration, unreadable, healthy]. \<forall>m. read_info p \<noteq> Raised (OtherError m)"
    by (simp add: exited_after_enumeration_def unreadable_def healthy_def)
  have r: "fetch_processes_real_time (\<lambda>n. []) [] [exited_after_enumeration, unreadable, healthy]
      = Returned (returned_entries (\<lambda>n. []) [exited_after_enumeration, unreadable, healthy])"
    using snapshot_policy [where second_pass = "[exited_after_enumeration, unreadable, healthy]"
        and h = "\<lambda>n. []" and first_pass = "[]"] h by blast
  have v: "map entry_pid (returned_entries (\<lambda>n. []) [exited_after_enumeration, unreadable, healthy]) = [77, 80]"
    "map entry_cpu (returned_entries (\<lambda>n. []) [exited_after_enumeration, unreadable, healthy]) = [0, 2]"
    "map entry_threads (returned_entries (\<lambda>n. []) [exited_after_enumeration, unreadable, healthy]) = [[], [80, 81]]"
    "map entry_category (returned_entries (\<lambda>n. []) [exited_after_enumeration, unreadable, healthy]) = [''User'', ''Services'']"
    by code_simp+
  have u: "read_info unreadable = Raised (AccessDenied ''access denied'')"
    by (simp add: unreadable_def)
  from h r v u show ?thesis by simp
qed

text \<open>A process that exits right after it was enumerated makes both \<^verbatim>\<open>cpu_percent\<close>
  and \<^verbatim>\<open>threads\<close> raise \<^verbatim>\<open>NoSuchProcess\<close>, and is still in the returned list.\<close>

theorem vanished_process_listed:
  "cpu_percent exited_after_enumeration = Raised (NoSuchProcess ''process no longer exists'')
   \<and> threads exited_after_enumeration = Raised (NoSuchProcess ''process no longer exists'')
   \<and> fetch_processes_real_time (\<lambda>n. []) [exited_after_enumeration] [exited_after_enumeration] =
       Returned [\<lparr>entry_pid = 77, entry_name = ''worker'', entry_user = Some ''alice'', entry_cpu = 0,
                  entry_mem = 4096, entry_mem_human = [], entry_category = ''User'',
                  entry_exe = None, entry_cmdline = [], entry_threads = []\<rparr>]"
  by code_simp

section \<open>The claims about port_manager.py\<close>

lemma port_owners_Cons:
  "port_owners port (c # cs) =
     (case (laddr c, conn_pid c) of
        (Some (ip, lport), Some q) \<Rightarrow> if lport = port \<and> q \<noteq> 0 then [q] else []
      | _ \<Rightarrow> []) @ port_owners port cs"
  by (simp add: port_owners_def)

lemma collect_port_procs_trace:
  "\<exists>evs. snd (collect_port_procs os port conns tr) = tr @ evs
     \<and> looked_up_pids evs = port_owners port conns
     \<and> resolved_pids evs = map pid (fst (collect_port_procs os port conns tr))"
proof (induction conns arbitrary: tr)
  case Nil
  then show ?case by (simp add: port_owners_def)
next
  case (Cons c cs)
  show ?case
  proof (cases "\<exists>ip q. laddr c = Some (ip, port) \<and> conn_pid c = Some q \<and> q \<noteq> 0")
    case True
    then obtain ip q where c: "laddr c = Some (ip, port)" "conn_pid c = Some q" "q \<noteq> 0" by blast
    define r where "r = Process_new os q tr"
    obtain evs where e: "snd (collect_port_procs os port cs (tr @ [Process_init q r])) = (tr @ [Process_init q r]) @ evs"
      "looked_up_pids evs = port_owners port cs"
      "resolved_pids evs = map pid (fst (collect_port_procs os port cs (tr @ [Process_init q r])))"
      using Cons.IH by blast
    show ?thesis
      apply (rule exI [of _ "Process_init q r # evs"])
      using c e by (cases r) (simp_all add: port_owners_Cons Let_def split_beta r_def [symmetric])
  next
    case False
    obtain evs where e: "snd (collect_port_procs os port cs tr) = tr @ evs"
      "looked_up_pids evs = port_owners port cs"
      "resolved_pids evs = map pid (fst (collect_port_procs os port cs tr))"
      using Cons.IH by blast
    have s: "collect_port_procs os port (c # cs) tr = collect_port_procs os port cs tr"
      using False by (auto split: option.splits prod.splits)
    have p: "port_owners port (c # cs) = port_owners port cs"
      using False by (auto simp add: port_owners_Cons split: option.splits prod.splits)
    show ?thesis
      unfolding s p using e by blast
  qed
qed

lemma collect_port_procs_subset:
  "set (map pid (fst (collect_port_procs os port conns tr))) \<subseteq> set (port_owners port conns)"
proof (induction conns arbitrary: tr)
  case Nil
  then show ?case by simp
next
  case (Cons c cs)
  show ?case
  proof (cases "\<exists>ip q. laddr c = Some (ip, port) \<and> conn_pid c = Some q \<and> q \<noteq> 0")
    case True
    then obtain ip q where c: "laddr c = Some (ip, port)" "conn_pid c = Some q" "q \<noteq> 0" by blast
    from Cons.IH [of "tr @ [Process_init q (Process_new os q tr)]"] c show ?thesis
      by (cases "Process_new os q tr") (auto simp add: port_owners_Cons Let_def split_beta)
  next
    case False
    have s: "collect_port_procs os port (c # cs) tr = collect_port_procs os port cs tr"
      using False by (auto split: option.splits prod.splits)
    have p: "port_owners port (c # cs) = port_owners port cs"
      using False by (auto simp add: port_owners_Cons split: option.splits prod.splits)
    show ?thesis unfolding s p using Cons.IH .
  qed
qed

lemma collect_port_procs_all:
  "\<forall>q tr. Process_new os q tr = Returned () \<Longrightarrow>
     map pid (fst (collect_port_procs os port conns tr)) = port_owners port conns"
proof (induction conns arbitrary: tr)
  case Nil
  then show ?case by (simp add: port_owners_def)
next
  case (Cons c cs)
  show ?case
  proof (cases "\<exists>ip q. laddr c = Some (ip, port) \<and> conn_pid c = Some q \<and> q \<noteq> 0")
    case True
    then obtain ip q where c: "laddr c = Some (ip, port)" "conn_pid c = Some q" "q \<noteq> 0" by blast
    from Cons.IH [OF Cons.prems, of "tr @ [Process_init q (Process_new os q tr)]"] c Cons.prems
    show ?thesis
      by (simp add: port_owners_Cons Let_def split_beta)
  next
    case False
    have s: "collect_port_procs os port (c # cs) tr = collect_port_procs os port cs tr"
      using False by (auto split: option.splits prod.splits)
    have p: "port_owners port (c # cs) = port_owners port cs"
      using False by (auto simp add: port_owners_Cons split: option.splits prod.splits)
    show ?thesis unfolding s p using Cons.IH [OF Cons.prems] .
  qed
qed

text \<open>The dictionary keyed by pid.\<close>

lemma unique_fold:
  "map fst (fold (\<lambda>p unique. AList.update (pid p) p unique) procs d) =
     fold (\<lambda>x ks. if x \<in> set ks then ks else ks @ [x]) (map pid procs) (map fst d)"
  by (induction procs arbitrary: d) (simp_all add: update_keys)

lemma unique_fold_values:
  "\<forall>(k, v) \<in> set d. k = pid v \<Longrightarrow>
     \<forall>(k, v) \<in> set (fold (\<lambda>p unique. AList.update (pid p) p unique) procs d). k = pid v"
proof (induction procs arbitrary: d)
  case Nil
  then show ?case by simp
next
  case (Cons p ps)
  have "\<forall>(k, v) \<in> set (AList.update (pid p) p d). k = pid v"
    using Cons.prems by (induction d) (auto split: if_splits)
  from Cons.IH [OF this] show ?case by simp
qed

lemma dedupe_by_pid_pids: "map pid (dedupe_by_pid procs) = dict_fromkeys (map pid procs)"
proof -
  define d where "d = fold (\<lambda>p unique. AList.update (pid p) p unique) procs []"
  have "\<forall>(k, v) \<in> set d. k = pid v"
    unfolding d_def by (rule unique_fold_values) simp
  then have "map (pid \<circ> snd) d = map fst d"
    by (induction d) auto
  then show ?thesis
    using unique_fold [of procs "[]"] by (simp add: dedupe_by_pid_def dict_fromkeys_def d_def)
qed

lemma dedupe_by_pid_facts:
  "distinct (map pid (dedupe_by_pid procs))"
  "set (map pid (dedupe_by_pid procs)) = set (map pid procs)"
  by (simp_all add: dedupe_by_pid_pids del: set_map)

lemma find_processes_using_port_table:
  assumes "net_connections os [] = Returned conns"
  shows "fst (find_processes_using_port os port) =
       dedupe_by_pid (fst (collect_port_procs os port conns [Net_connections (Returned conns)]))"
    and "snd (find_processes_using_port os port) =
       snd (collect_port_procs os port conns [Net_connections (Returned conns)])"
  using assms by (simp_all add: find_processes_using_port_def Let_def split_beta)

text \<open>
  Claim C8, as amended. find_processes_using_port returns at most one process per pid.
  When the connection table is read, a handle is requested for exactly the owners of the
  inet connections whose local port is the requested one and whose pid is not zero, in
  table order, and the returned processes are exactly the owners for which the handle
  was obtained; they are all those owners, each once, in the order of first appearance,
  when every handle is obtained. For a port with no such connection the result is empty,
  and it is also empty when the connection table cannot be read.
\<close>

theorem port_listeners:
  "distinct (map pid (fst (find_processes_using_port os port)))
   \<and> (net_connections os [] = Returned conns \<longrightarrow>
        looked_up_pids (snd (find_processes_using_port os port)) = port_owners port conns
      \<and> set (map pid (fst (find_processes_using_port os port)))
          = set (resolved_pids (snd (find_processes_using_port os port)))
      \<and> set (map pid (fst (find_processes_using_port os port))) \<subseteq> set (port_owners port conns)
      \<and> ((\<forall>q tr. Process_new os q tr = Returned ()) \<longrightarrow>
           map pid (fst (find_processes_using_port os port)) = dict_fromkeys (port_owners port conns))
      \<and> (port_owners port conns = [] \<longrightarrow> fst (find_processes_using_port os port) = []))
   \<and> (net_connections os [] = Raised e \<longrightarrow> fst (find_processes_using_port os port) = [])"
proof -
  have 1: "distinct (map pid (fst (find_processes_using_port os port)))"
    by (simp add: find_processes_using_port_def Let_def split_beta dedupe_by_pid_facts(1))
  have 3: "net_connections os [] = Raised e \<longrightarrow> fst (find_processes_using_port os port) = []"
    by (simp add: find_processes_using_port_def Let_def dedupe_by_pid_def)
  have 2: "looked_up_pids (snd (find_processes_using_port os port)) = port_owners port conns
      \<and> set (map pid (fst (find_processes_using_port os port)))
          = set (resolved_pids (snd (find_processes_using_port os port)))
      \<and> set (map pid (fst (find_processes_using_port os port))) \<subseteq> set (port_owners port conns)
      \<and> ((\<forall>q tr. Process_new os q tr = Returned ()) \<longrightarrow>
           map pid (fst (find_processes_using_port os port)) = dict_fromkeys (port_owners port conns))
      \<and> (port_owners port conns = [] \<longrightarrow> fst (find_processes_using_port os port) = [])"
    if t: "net_connections os [] = Returned conns"
  proof -
    define tr0 where "tr0 = [Net_connections (Returned conns)]"
    define procs where "procs = fst (collect_port_procs os port conns tr0)"
    obtain evs where e: "snd (collect_port_procs os port conns tr0) = tr0 @ evs"
      "looked_up_pids evs = port_owners port conns" "resolved_pids evs = map pid procs"
      using collect_port_procs_trace [of os port conns tr0] unfolding procs_def by blast
    have f: "fst (find_processes_using_port os port) = dedupe_by_pid procs"
      "snd (find_processes_using_port os port) = tr0 @ evs"
      using find_processes_using_port_table [OF t, of port] e(1) by (simp_all add: procs_def tr0_def)
    have a: "looked_up_pids (snd (find_processes_using_port os port)) = port_owners port conns"
      unfolding f using e(2) by (simp add: tr0_def)
    have b: "set (map pid (fst (find_processes_using_port os port)))
          = set (resolved_pids (snd (find_processes_using_port os port)))"
      unfolding f using e(3) dedupe_by_pid_facts(2) [of procs] by (simp add: tr0_def del: set_map)
    have sub: "set (map pid procs) \<subseteq> set (port_owners port conns)"
      unfolding procs_def by (rule collect_port_procs_subset)
    then have c: "set (map pid (fst (find_processes_using_port os port))) \<subseteq> set (port_owners port conns)"
      unfolding f using dedupe_by_pid_facts(2) [of procs] by simp
    have d: "(\<forall>q tr. Process_new os q tr = Returned ()) \<longrightarrow>
           map pid (fst (find_processes_using_port os port)) = dict_fromkeys (port_owners port conns)"
      unfolding f by (simp add: dedupe_by_pid_pids procs_def collect_port_procs_all)
    have "port_owners port conns = [] \<longrightarrow> procs = []"
      using sub by auto
    then have g: "port_owners port conns = [] \<longrightarrow> fst (find_processes_using_port os port) = []"
      unfolding f by (auto simp add: dedupe_by_pid_def)
    from a b c d g show ?thesis by blast
  qed
  from 1 2 3 show ?thesis by blast
qed

lemmas port_defs = find_processes_using_port_def dedupe_by_pid_def port_owners_def
  listener_alive_def listener_gone_def sample_table_def stubborn_child_def vanished_root_def
  dict_fromkeys_def Let_def

theorem port_listeners_witness:
  "net_connections listener_alive [] = Returned sample_table
   \<and> (\<forall>q tr. Process_new listener_alive q tr = Returned ())
   \<and> port_owners 8080 sample_table = [4321, 4321]
   \<and> fst (find_processes_using_port listener_alive 8080) = [Process 4321]
   \<and> map pid (fst (find_processes_using_port listener_alive 8080)) = dict_fromkeys [4321, 4321]
   \<and> port_owners 9999 sample_table = []
   \<and> fst (find_processes_using_port listener_alive 9999) = []"
proof -
  have t: "net_connections listener_alive [] = Returned sample_table"
    by (simp add: listener_alive_def)
  have r: "\<forall>q tr. Process_new listener_alive q tr = Returned ()"
    by (simp add: listener_alive_def stubborn_child_def)
  have o: "port_owners 8080 sample_table = [4321, 4321]" "port_owners 9999 sample_table = []"
    by (simp_all add: port_owners_def sample_table_def)
  have v: "fst (find_processes_using_port listener_alive 8080) = [Process 4321]"
    by (simp add: port_defs)
  have "map pid (fst (find_processes_using_port listener_alive 8080)) = dict_fromkeys (port_owners 8080 sample_table)"
    using port_listeners [where os = listener_alive and port = 8080 and conns = sample_table] t r
    by blast
  moreover have "fst (find_processes_using_port listener_alive 9999) = []"
    using port_listeners [where os = listener_alive and port = 9999 and conns = sample_table] t o(2)
    by blast
  ultimately show ?thesis using t r o v by simp
qed

text \<open>Process 4321 owns two connections on port 8080 but has exited when its handle
  is requested: it is not returned.\<close>

theorem listener_gone_counterexample:
  "net_connections listener_gone [] = Returned sample_table
   \<and> port_owners 8080 sample_table = [4321, 4321]
   \<and> fst (find_processes_using_port listener_gone 8080) = []"
  by (simp add: port_defs)

lemmas input_defs = py_int_def strip_def is_space_def digit_of_def

text \<open>Both interactive functions reject text that is not an integer, and
  \<^verbatim>\<open>show_ports_range\<close> probes only ports between 1 and 65535.\<close>

lemma free_port_rejects_non_numeric:
  "py_int (strip line) = None \<Longrightarrow> \<exists>msg. free_port_interactive os line = Rejected msg"
  by (simp add: free_port_interactive_def Let_def)

lemma show_ports_range_probes_valid:
  "show_ports_range connect_ex line1 line2 = Proceeded results \<Longrightarrow>
     \<forall>(port, status) \<in> set results. 1 \<le> port \<and> port \<le> 65535"
  by (auto simp add: show_ports_range_def split: option.splits if_splits)

lemma show_ports_range_rejects_non_numeric:
  "py_int (strip line1) = None \<or> py_int (strip line2) = None \<Longrightarrow>
     show_ports_range connect_ex line1 line2 = Rejected ''Invalid input.''"
  by (auto simp add: show_ports_range_def split: option.splits)

text \<open>
  Claim C9 asks that a port outside 1-65535 is rejected before any core operation.
  \<^verbatim>\<open>free_port_interactive\<close> has no range check: the input 70000 is parsed and
  \<^verbatim>\<open>find_processes_using_port(70000)\<close> is called.
\<close>

theorem free_port_accepts_any_integer:
  "free_port_interactive listener_alive ''70000'' =
     Proceeded (70000, [], [Net_connections (Returned sample_table)])
   \<and> \<not> (1 \<le> (70000::int) \<and> (70000::int) \<le> 65535)"
  by (simp add: free_port_interactive_def input_defs port_defs)

end
